theory Spec2Isabelle
  imports Complex_Main "HOL-Library.Sublist"
begin

section \<open>Python strings\<close>

text \<open>
  A Python \<open>str\<close> is modelled as a \<open>string\<close> holding its UTF-8 bytes. \<open>lower\<close>
  acts on the letters \<open>A\<close>..\<open>Z\<close>; the program only tests its result against ASCII
  literals. \<open>strip\<close> removes, at both ends, every character for which \<open>str.isspace\<close>
  holds, and these are recognised by their encodings: in UTF-8 the encoding of a
  character starts (ends) a text exactly when the character is its first (last) one.
\<close>

definition lower_char :: "char \<Rightarrow> char" where
  "lower_char c =
     (let n = (of_char c :: nat) in if 65 \<le> n \<and> n \<le> 90 then char_of (n + 32) else c)"

definition lower :: "string \<Rightarrow> string" where
  "lower s = map lower_char s"

text \<open>The UTF-8 encoding of a code point.\<close>

definition utf8 :: "int \<Rightarrow> string" where
  "utf8 n =
     (if n < 0x80 then [char_of n]
      else if n < 0x800 then [char_of (0xC0 + n div 64), char_of (0x80 + n mod 64)]
      else if n < 0x10000
      then [char_of (0xE0 + n div 4096), char_of (0x80 + n div 64 mod 64), char_of (0x80 + n mod 64)]
      else [char_of (0xF0 + n div 262144), char_of (0x80 + n div 4096 mod 64),
            char_of (0x80 + n div 64 mod 64), char_of (0x80 + n mod 64)])"

text \<open>The 29 code points of Unicode whitespace, for which \<open>str.isspace\<close> holds.\<close>

definition WHITESPACE :: "int list" where
  "WHITESPACE =
     [0x09, 0x0A, 0x0B, 0x0C, 0x0D, 0x1C, 0x1D, 0x1E, 0x1F, 0x20, 0x85, 0xA0, 0x1680,
      0x2000, 0x2001, 0x2002, 0x2003, 0x2004, 0x2005, 0x2006, 0x2007, 0x2008, 0x2009, 0x200A,
      0x2028, 0x2029, 0x202F, 0x205F, 0x3000]"

definition whitespace :: "string list" where
  "whitespace = map utf8 WHITESPACE"

text \<open>
  The number of bytes of the whitespace character \<open>s\<close> starts with (ends with),
  and 0 when it starts (ends) with none.
\<close>

definition leading_space :: "string \<Rightarrow> nat" where
  "leading_space s =
     (case find (\<lambda>x. prefix x s) whitespace of None \<Rightarrow> 0 | Some x \<Rightarrow> length x)"

definition trailing_space :: "string \<Rightarrow> nat" where
  "trailing_space s =
     (case find (\<lambda>x. suffix x s) whitespace of None \<Rightarrow> 0 | Some x \<Rightarrow> length x)"

lemma leading_space_le: "leading_space s \<le> length s"
  by (auto simp: leading_space_def find_Some_iff prefix_length_le split: option.splits)

lemma trailing_space_le: "trailing_space s \<le> length s"
  by (auto simp: trailing_space_def find_Some_iff suffix_length_le split: option.splits)

text \<open>\<open>s.lstrip()\<close>, \<open>s.rstrip()\<close> and \<open>s.strip()\<close>.\<close>

function lstrip :: "string \<Rightarrow> string" where
  "lstrip s = (if leading_space s = 0 then s else lstrip (drop (leading_space s) s))"
  by pat_completeness auto
termination
proof (relation "measure length")
  fix s :: string assume "leading_space s \<noteq> 0"
  with leading_space_le [of s] show "(drop (leading_space s) s, s) \<in> measure length"
    by simp
qed simp

function rstrip :: "string \<Rightarrow> string" where
  "rstrip s = (if trailing_space s = 0 then s else rstrip (take (length s - trailing_space s) s))"
  by pat_completeness auto
termination
proof (relation "measure length")
  fix s :: string assume "trailing_space s \<noteq> 0"
  with trailing_space_le [of s]
  show "(take (length s - trailing_space s) s, s) \<in> measure length"
    by simp
qed simp

declare lstrip.simps [simp del] rstrip.simps [simp del]

definition strip :: "string \<Rightarrow> string" where
  "strip s = rstrip (lstrip s)"

text \<open>\<open>s.split(sep)\<close> for a separator of one character: never an empty list.\<close>

fun split :: "char \<Rightarrow> string \<Rightarrow> string list" where
  "split sep [] = [[]]"
| "split sep (c # cs) =
     (if c = sep then [] # split sep cs
      else (case split sep cs of [] \<Rightarrow> [[c]] | p # ps \<Rightarrow> (c # p) # ps))"

text \<open>
  The program only ever reads \<open>parts[0]\<close> of a split, which cannot raise: \<open>split\<close>
  returns at least one part (lemma \<open>split_not_Nil\<close> below), so \<open>hd\<close> is used for it.
\<close>

datatype error = OSError | ValueError | AttributeError

definition endswith :: "string \<Rightarrow> string \<Rightarrow> bool" where
  "endswith s suf = (length suf \<le> length s \<and> drop (length s - length suf) s = suf)"

definition startswith :: "string \<Rightarrow> string \<Rightarrow> bool" where
  "startswith s pre = (take (length pre) s = pre)"

text \<open>\<open>sub in s\<close>: \<open>sub\<close> occurs in \<open>s\<close> at some position.\<close>

fun contains :: "string \<Rightarrow> string \<Rightarrow> bool" where
  "contains [] sub = (sub = [])"
| "contains (c # cs) sub = (startswith (c # cs) sub \<or> contains cs sub)"

text \<open>\<open>sep.join(parts)\<close>.\<close>

fun join :: "string \<Rightarrow> string list \<Rightarrow> string" where
  "join sep [] = []"
| "join sep [p] = p"
| "join sep (p # q # ps) = p @ sep @ join sep (q # ps)"

text \<open>\<open>str(n)\<close> and the format \<open>{n:03d}\<close> for a Python int.\<close>

definition digit_char :: "nat \<Rightarrow> char" where
  "digit_char d = char_of (48 + d)"

fun str_nat :: "nat \<Rightarrow> string" where
  "str_nat n = (if n < 10 then [digit_char n] else str_nat (n div 10) @ [digit_char (n mod 10)])"

declare str_nat.simps [simp del]

definition str_int :: "int \<Rightarrow> string" where
  "str_int i = (if i < 0 then CHR ''-'' # str_nat (nat (- i)) else str_nat (nat i))"

definition format_03d :: "int \<Rightarrow> string" where
  "format_03d i =
     (if i < 0 then CHR ''-'' # replicate (2 - length (str_nat (nat (- i)))) CHR ''0'' @ str_nat (nat (- i))
      else replicate (3 - length (str_nat (nat i))) CHR ''0'' @ str_nat (nat i))"

section \<open>Resource filter and URL normalisation\<close>

definition DISALLOWED_EXTENSIONS :: "string list" where
  "DISALLOWED_EXTENSIONS =
     [''.js'', ''.css'', ''.png'', ''.jpg'', ''.jpeg'', ''.gif'', ''.svg'', ''.webp'',
      ''.ico'', ''.pdf'', ''.zip'', ''.rar'', ''.7z'', ''.mp3'', ''.mp4'', ''.avi'', ''.mov'',
      ''.woff'', ''.woff2'', ''.ttf'', ''.eot'']"

text \<open>The loop \<open>for ext in DISALLOWED_EXTENSIONS: if u.endswith(ext): return True\<close>.\<close>

fun ext_loop :: "string \<Rightarrow> string list \<Rightarrow> bool" where
  "ext_loop u [] = False"
| "ext_loop u (ext # exts) = (if endswith u ext then True else ext_loop u exts)"

definition is_bad_resource_url :: "string \<Rightarrow> bool" where
  "is_bad_resource_url url =
     (let u = hd (split CHR ''#'' (hd (split CHR ''?'' (lower url))))
      in ext_loop u DISALLOWED_EXTENSIONS)"

text \<open>
  The values \<open>json.loads\<close> produces. Numbers are never inspected by the program.
  An object is a list of pairs with \<open>dict.get\<close> as \<open>map_of\<close>.
\<close>

datatype json =
    JNull
  | JBool bool
  | JInt int
  | JFloat rat
  | JStr string
  | JArr "json list"
  | JObj "(string \<times> json) list"

text \<open>
  The loop of \<open>normalize_urls\<close>, with its two accumulators \<open>seen\<close> and \<open>out\<close>.
  Each \<open>continue\<close> is a recursive call that leaves both unchanged.
\<close>

fun normalize_loop :: "json list \<Rightarrow> string set \<Rightarrow> string list \<Rightarrow> string list" where
  "normalize_loop [] seen out = out"
| "normalize_loop (JStr s # us) seen out =
     (let u = strip s in
      if u = [] then normalize_loop us seen out
      else if is_bad_resource_url u then normalize_loop us seen out
      else if u \<notin> seen then normalize_loop us (insert u seen) (out @ [u])
      else normalize_loop us seen out)"
| "normalize_loop (_ # us) seen out = normalize_loop us seen out"

definition normalize_urls :: "json list \<Rightarrow> string list" where
  "normalize_urls urls = normalize_loop urls {} []"

section \<open>The environment\<close>

text \<open>
  A path is the list of its components, relative to the working directory; the empty
  path is the working directory itself, which always exists. The file system maps a
  path to what is there. A file holds the text written to it.
\<close>

type_synonym path = "string list"

datatype node = Dir | File string

type_synonym filesystem = "path \<rightharpoonup> node"

text \<open>
  What the program reads of a \<open>requests.Response\<close>: the status, the value of
  \<open>resp.headers.get("Content-Type")\<close> and \<open>resp.text\<close>.
\<close>

record response =
  status_code :: int
  content_type :: "string option"
  resp_text :: string

text \<open>
  \<open>session.get\<close> either raises (connection failure, timeout after \<open>TIMEOUT_SEC\<close>, any
  other exception) or returns a response. The network is an arbitrary function of the
  number of requests made before this one and of the URL, so a URL may answer
  differently each time it is asked.
\<close>

datatype outcome = Raised | Responded response

type_synonym network = "nat \<Rightarrow> string \<Rightarrow> outcome"

text \<open>What the run does to the outside, in order.\<close>

datatype event = Get string | Sleep rat | Print string | WriteText path string

record world =
  fs :: filesystem
  trace :: "event list"

text \<open>The module's constants.\<close>

record config =
  URLS_FILE :: path
  OUTPUT_DIR :: path
  INDEX_PATH :: path
  MAX_PAGES :: int
  REQUEST_DELAY_SEC :: rat
  TIMEOUT_SEC :: rat
  RETRIES :: int

definition default_config :: config where
  "default_config =
     \<lparr>URLS_FILE = [''urls.json''], OUTPUT_DIR = [''crawled_pages''], INDEX_PATH = [''index.txt''],
      MAX_PAGES = 100, REQUEST_DELAY_SEC = 2 / 10, TIMEOUT_SEC = 15, RETRIES = 3\<rparr>"

fun gets_of :: "event list \<Rightarrow> string list" where
  "gets_of [] = []"
| "gets_of (Get u # es) = u # gets_of es"
| "gets_of (_ # es) = gets_of es"

fun writes_of :: "event list \<Rightarrow> (path \<times> string) list" where
  "writes_of [] = []"
| "writes_of (WriteText p s # es) = (p, s) # writes_of es"
| "writes_of (_ # es) = writes_of es"

definition emit :: "event \<Rightarrow> world \<Rightarrow> world" where
  "emit e w = w\<lparr>trace := trace w @ [e]\<rparr>"

definition sleep :: "rat \<Rightarrow> world \<Rightarrow> world" where
  "sleep secs w = emit (Sleep secs) w"

definition print :: "string \<Rightarrow> world \<Rightarrow> world" where
  "print line w = emit (Print line) w"

definition session_get :: "network \<Rightarrow> string \<Rightarrow> world \<Rightarrow> outcome \<times> world" where
  "session_get net url w = (net (length (gets_of (trace w))) url, emit (Get url) w)"

text \<open>
  \<open>Path.mkdir(parents=True, exist_ok=True)\<close>: every ancestor and the path itself, from
  the top, is created when absent and accepted when it is a directory; a regular file
  in the way is an error, and then nothing has been created.
\<close>

fun mkdir_chain :: "path list \<Rightarrow> filesystem \<Rightarrow> error + filesystem" where
  "mkdir_chain [] f = Inr f"
| "mkdir_chain (p # ps) f =
     (case f p of
        None \<Rightarrow> mkdir_chain ps (f(p \<mapsto> Dir))
      | Some Dir \<Rightarrow> mkdir_chain ps f
      | Some (File _) \<Rightarrow> Inl OSError)"

definition mkdir_parents_exist_ok :: "path \<Rightarrow> world \<Rightarrow> (error + unit) \<times> world" where
  "mkdir_parents_exist_ok p w =
     (case mkdir_chain (tl (prefixes p)) (fs w) of
        Inl e \<Rightarrow> (Inl e, w)
      | Inr f \<Rightarrow> (Inr (), w\<lparr>fs := f\<rparr>))"

text \<open>
  \<open>Path.write_text\<close>: the path must not be a directory and its parent must be one;
  an existing file is replaced.
\<close>

definition write_text :: "path \<Rightarrow> string \<Rightarrow> world \<Rightarrow> (error + unit) \<times> world" where
  "write_text p s w =
     (if p = [] \<or> fs w p = Some Dir then (Inl OSError, w)
      else if butlast p = [] \<or> fs w (butlast p) = Some Dir
      then (Inr (), emit (WriteText p s) (w\<lparr>fs := (fs w)(p \<mapsto> File s)\<rparr>))
      else (Inl OSError, w))"

definition read_text :: "path \<Rightarrow> world \<Rightarrow> error + string" where
  "read_text p w = (case fs w p of Some (File s) \<Rightarrow> Inr s | _ \<Rightarrow> Inl OSError)"

section \<open>Loading the URL list\<close>

text \<open>
  \<open>json_loads\<close> stands for decoding the file as UTF-8 and \<open>json.loads\<close>; \<open>None\<close> is a
  \<open>UnicodeDecodeError\<close> or a \<open>JSONDecodeError\<close>, both of which are \<open>ValueError\<close>s.
  \<open>data.get\<close> on a value that is not a dict is an \<open>AttributeError\<close>.
\<close>

definition load_urls ::
  "(string \<Rightarrow> json option) \<Rightarrow> path \<Rightarrow> world \<Rightarrow> error + string list" where
  "load_urls json_loads file_path w =
     (case read_text file_path w of
        Inl e \<Rightarrow> Inl e
      | Inr txt \<Rightarrow>
          (case json_loads txt of
             None \<Rightarrow> Inl ValueError
           | Some (JObj data) \<Rightarrow>
               (let raw_urls = (case map_of data ''urls'' of None \<Rightarrow> JArr [] | Some v \<Rightarrow> v)
                in case raw_urls of
                     JArr xs \<Rightarrow> Inr (normalize_urls xs)
                   | _ \<Rightarrow> Inl ValueError)
           | Some _ \<Rightarrow> Inl AttributeError))"

section \<open>Fetching\<close>

definition is_html_response :: "response \<Rightarrow> bool" where
  "is_html_response resp =
     (let ctype = lower (case content_type resp of None \<Rightarrow> [] | Some v \<Rightarrow> v)
      in contains ctype ''text/html'' \<or> contains ctype ''application/xhtml+xml'')"

text \<open>
  The loop \<open>for attempt in range(1, RETRIES + 1)\<close> of \<open>fetch_html\<close> over the attempts
  that are left. The \<open>except\<close> branch sleeps \<open>0.5 * attempt\<close> and goes on with the next
  attempt; leaving the loop returns \<open>None\<close>.
\<close>

fun fetch_loop :: "network \<Rightarrow> string \<Rightarrow> int list \<Rightarrow> world \<Rightarrow> string option \<times> world" where
  "fetch_loop net url [] w = (None, w)"
| "fetch_loop net url (attempt # attempts) w =
     (case session_get net url w of
        (Raised, w1) \<Rightarrow> fetch_loop net url attempts (sleep (1 / 2 * of_int attempt) w1)
      | (Responded resp, w1) \<Rightarrow>
          if status_code resp \<noteq> 200 then (None, w1)
          else if \<not> is_html_response resp then (None, w1)
          else (Some (resp_text resp), w1))"

definition fetch_html :: "config \<Rightarrow> network \<Rightarrow> string \<Rightarrow> world \<Rightarrow> string option \<times> world" where
  "fetch_html cfg net url w = fetch_loop net url [1..RETRIES cfg] w"

section \<open>Saving pages and the index\<close>

definition page_path :: "path \<Rightarrow> int \<Rightarrow> path" where
  "page_path output_dir number = output_dir @ [str_int number @ ''.txt'']"

definition save_page :: "path \<Rightarrow> int \<Rightarrow> string \<Rightarrow> world \<Rightarrow> (error + path) \<times> world" where
  "save_page output_dir number html w =
     (case mkdir_parents_exist_ok output_dir w of
        (Inl e, w1) \<Rightarrow> (Inl e, w1)
      | (Inr _, w1) \<Rightarrow>
          (let file_path = page_path output_dir number
           in case write_text file_path html w1 of
                (Inl e, w2) \<Rightarrow> (Inl e, w2)
              | (Inr _, w2) \<Rightarrow> (Inr file_path, w2)))"

definition index_text :: "(int \<times> string) list \<Rightarrow> string" where
  "index_text index_lines =
     join [CHR 0x0A] (map (\<lambda>(n, url). str_int n @ [CHR 0x09] @ url) index_lines) @ [CHR 0x0A]"

definition write_index :: "path \<Rightarrow> (int \<times> string) list \<Rightarrow> world \<Rightarrow> (error + unit) \<times> world" where
  "write_index index_path index_lines w = write_text index_path (index_text index_lines) w"

section \<open>The main program\<close>

text \<open>
  The message literals of \<open>main\<close>, as their UTF-8 bytes (the text is Russian). In
  English: "The URL list is empty. Fill in urls.json."; "Could not save 100 pages:
  saved \<open>{saved}\<close>. Add more URLs to urls.json (150-200 is better) or check that the
  sites can be reached."; "Done: saved \<open>{saved}\<close> pages, index.txt written." The
  number 100 in the second message is part of the literal.
\<close>

definition msg_list_empty :: string where
  "msg_list_empty =
     [CHR 0xD0, CHR 0xA1, CHR 0xD0, CHR 0xBF, CHR 0xD0, CHR 0xB8, CHR 0xD1, CHR 0x81,
      CHR 0xD0, CHR 0xBE, CHR 0xD0, CHR 0xBA] @ '' URL '' @ [CHR 0xD0, CHR 0xBF,
      CHR 0xD1, CHR 0x83, CHR 0xD1, CHR 0x81, CHR 0xD1,
      CHR 0x82] @ ''. '' @ [CHR 0xD0, CHR 0x97, CHR 0xD0, CHR 0xB0, CHR 0xD0,
      CHR 0xBF, CHR 0xD0, CHR 0xBE, CHR 0xD0, CHR 0xBB, CHR 0xD0, CHR 0xBD,
      CHR 0xD0, CHR 0xB8] @ '' urls.json.''"

definition msg_too_few :: "int \<Rightarrow> string" where
  "msg_too_few saved =
     ([CHR 0xD0, CHR 0x9D, CHR 0xD0, CHR 0xB5] @ '' '' @ [CHR 0xD1, CHR 0x83, CHR 0xD0,
       CHR 0xB4, CHR 0xD0, CHR 0xB0, CHR 0xD0, CHR 0xBB, CHR 0xD0, CHR 0xBE,
       CHR 0xD1, CHR 0x81, CHR 0xD1, CHR 0x8C] @ '' '' @ [CHR 0xD1, CHR 0x81,
       CHR 0xD0, CHR 0xBE, CHR 0xD1, CHR 0x85, CHR 0xD1, CHR 0x80, CHR 0xD0,
       CHR 0xB0, CHR 0xD0, CHR 0xBD, CHR 0xD0, CHR 0xB8, CHR 0xD1, CHR 0x82,
       CHR 0xD1, CHR 0x8C] @ '' 100 '' @ [CHR 0xD1, CHR 0x81, CHR 0xD1, CHR 0x82,
       CHR 0xD1, CHR 0x80, CHR 0xD0, CHR 0xB0, CHR 0xD0, CHR 0xBD, CHR 0xD0,
       CHR 0xB8, CHR 0xD1, CHR 0x86] @ '': '' @ [CHR 0xD1, CHR 0x81, CHR 0xD0,
       CHR 0xBE, CHR 0xD1, CHR 0x85, CHR 0xD1, CHR 0x80, CHR 0xD0, CHR 0xB0,
       CHR 0xD0, CHR 0xBD, CHR 0xD0, CHR 0xB5, CHR 0xD0, CHR 0xBD, CHR 0xD0,
       CHR 0xBE] @ '' '')
     @ str_int saved @
     (''. '' @ [CHR 0xD0, CHR 0x94, CHR 0xD0, CHR 0xBE, CHR 0xD0, CHR 0xB1, CHR 0xD0,
       CHR 0xB0, CHR 0xD0, CHR 0xB2, CHR 0xD1, CHR 0x8C] @ '' '' @ [CHR 0xD0,
       CHR 0xB1, CHR 0xD0, CHR 0xBE, CHR 0xD0, CHR 0xBB, CHR 0xD1, CHR 0x8C,
       CHR 0xD1, CHR 0x88, CHR 0xD0, CHR 0xB5] @ '' URL '' @ [CHR 0xD0,
       CHR 0xB2] @ '' urls.json ('' @ [CHR 0xD0, CHR 0xBB, CHR 0xD1, CHR 0x83,
       CHR 0xD1, CHR 0x87, CHR 0xD1, CHR 0x88, CHR 0xD0,
       CHR 0xB5] @ '' 150'' @ [CHR 0xE2, CHR 0x80, CHR 0x93] @ ''200) '' @ [CHR 0xD0,
       CHR 0xB8, CHR 0xD0, CHR 0xBB, CHR 0xD0, CHR 0xB8] @ '' '' @ [CHR 0xD0,
       CHR 0xBF, CHR 0xD1, CHR 0x80, CHR 0xD0, CHR 0xBE, CHR 0xD0, CHR 0xB2,
       CHR 0xD0, CHR 0xB5, CHR 0xD1, CHR 0x80, CHR 0xD1,
       CHR 0x8C] @ '' '' @ [CHR 0xD0, CHR 0xB4, CHR 0xD0, CHR 0xBE, CHR 0xD1,
       CHR 0x81, CHR 0xD1, CHR 0x82, CHR 0xD1, CHR 0x83, CHR 0xD0, CHR 0xBF,
       CHR 0xD0, CHR 0xBD, CHR 0xD0, CHR 0xBE, CHR 0xD1, CHR 0x81, CHR 0xD1,
       CHR 0x82, CHR 0xD1, CHR 0x8C] @ '' '' @ [CHR 0xD1, CHR 0x81, CHR 0xD0,
       CHR 0xB0, CHR 0xD0, CHR 0xB9, CHR 0xD1, CHR 0x82, CHR 0xD0, CHR 0xBE,
       CHR 0xD0, CHR 0xB2] @ ''.'')"

definition msg_done :: "int \<Rightarrow> string" where
  "msg_done saved =
     ([CHR 0xD0, CHR 0x93, CHR 0xD0, CHR 0xBE, CHR 0xD1, CHR 0x82, CHR 0xD0, CHR 0xBE,
       CHR 0xD0, CHR 0xB2, CHR 0xD0, CHR 0xBE] @ '': '' @ [CHR 0xD1, CHR 0x81,
       CHR 0xD0, CHR 0xBE, CHR 0xD1, CHR 0x85, CHR 0xD1, CHR 0x80, CHR 0xD0,
       CHR 0xB0, CHR 0xD0, CHR 0xBD, CHR 0xD0, CHR 0xB5, CHR 0xD0, CHR 0xBD,
       CHR 0xD0, CHR 0xBE] @ '' '')
     @ str_int saved @
     ('' '' @ [CHR 0xD1, CHR 0x81, CHR 0xD1, CHR 0x82, CHR 0xD1, CHR 0x80, CHR 0xD0,
       CHR 0xB0, CHR 0xD0, CHR 0xBD, CHR 0xD0, CHR 0xB8, CHR 0xD1,
       CHR 0x86] @ '', index.txt '' @ [CHR 0xD1, CHR 0x81, CHR 0xD1, CHR 0x84,
       CHR 0xD0, CHR 0xBE, CHR 0xD1, CHR 0x80, CHR 0xD0, CHR 0xBC, CHR 0xD0,
       CHR 0xB8, CHR 0xD1, CHR 0x80, CHR 0xD0, CHR 0xBE, CHR 0xD0, CHR 0xB2,
       CHR 0xD0, CHR 0xB0, CHR 0xD0, CHR 0xBD] @ ''.'')"

text \<open>
  The loop \<open>for url in urls\<close> of \<open>main\<close>, with the local variables \<open>saved\<close> and
  \<open>index_lines\<close>. \<open>break\<close> returns what has been accumulated. An exception of
  \<open>save_page\<close> is not caught and ends the loop with the error.
\<close>

fun main_loop ::
  "config \<Rightarrow> network \<Rightarrow> string list \<Rightarrow> int \<Rightarrow> (int \<times> string) list \<Rightarrow> world \<Rightarrow>
     (error + int \<times> (int \<times> string) list) \<times> world" where
  "main_loop cfg net [] saved index_lines w = (Inr (saved, index_lines), w)"
| "main_loop cfg net (url # urls) saved index_lines w =
     (if saved \<ge> MAX_PAGES cfg then (Inr (saved, index_lines), w)
      else
        (case fetch_html cfg net url w of
           (None, w1) \<Rightarrow>
             main_loop cfg net urls saved index_lines
               (sleep (REQUEST_DELAY_SEC cfg) (print (''[SKIP] '' @ url) w1))
         | (Some html, w1) \<Rightarrow>
             (case save_page (OUTPUT_DIR cfg) (saved + 1) html w1 of
                (Inl e, w2) \<Rightarrow> (Inl e, w2)
              | (Inr _, w2) \<Rightarrow>
                  main_loop cfg net urls (saved + 1) (index_lines @ [(saved + 1, url)])
                    (sleep (REQUEST_DELAY_SEC cfg)
                       (print (''[OK]   '' @ format_03d (saved + 1) @ '': '' @ url) w2)))))"

text \<open>
  Lines 182 to 203 of \<open>main\<close>: the loop from \<open>saved = 0\<close> and an empty index, then the
  flush of the index. The result is the final \<open>saved\<close> and \<open>index_lines\<close>.
\<close>

definition crawl ::
  "config \<Rightarrow> network \<Rightarrow> string list \<Rightarrow> world \<Rightarrow> (error + int \<times> (int \<times> string) list) \<times> world" where
  "crawl cfg net urls w =
     (case main_loop cfg net urls 0 [] w of
        (Inl e, w1) \<Rightarrow> (Inl e, w1)
      | (Inr (saved, index_lines), w1) \<Rightarrow>
          (case write_index (INDEX_PATH cfg) index_lines w1 of
             (Inl e, w2) \<Rightarrow> (Inl e, w2)
           | (Inr _, w2) \<Rightarrow> (Inr (saved, index_lines), w2)))"

text \<open>
  How the process ends: normally (status 0), by \<open>SystemExit\<close> with a message (the
  message goes to stderr, status 1), or by an exception nobody catches (traceback,
  status 1).
\<close>

datatype exit = Exit_ok | SystemExit string | Uncaught error

fun exit_status :: "exit \<Rightarrow> int" where
  "exit_status Exit_ok = 0"
| "exit_status (SystemExit _) = 1"
| "exit_status (Uncaught _) = 1"

definition main ::
  "config \<Rightarrow> (string \<Rightarrow> json option) \<Rightarrow> network \<Rightarrow> world \<Rightarrow> exit \<times> world" where
  "main cfg json_loads net w =
     (case load_urls json_loads (URLS_FILE cfg) w of
        Inl e \<Rightarrow> (Uncaught e, w)
      | Inr urls \<Rightarrow>
          if urls = [] then (SystemExit msg_list_empty, w)
          else
            (case crawl cfg net urls w of
               (Inl e, w1) \<Rightarrow> (Uncaught e, w1)
             | (Inr (saved, index_lines), w1) \<Rightarrow>
                 if saved < MAX_PAGES cfg then (SystemExit (msg_too_few saved), w1)
                 else (Exit_ok, print (msg_done saved) w1)))"

section \<open>Definitions used to state the properties\<close>

text \<open>The string entries of a JSON list, in order.\<close>

fun strings_of :: "json list \<Rightarrow> string list" where
  "strings_of [] = []"
| "strings_of (JStr s # js) = s # strings_of js"
| "strings_of (_ # js) = strings_of js"

text \<open>
  The string entries, trimmed, without those that are empty after trimming and those
  the resource filter rejects.
\<close>

definition candidates :: "json list \<Rightarrow> string list" where
  "candidates urls =
     filter (\<lambda>u. u \<noteq> [] \<and> \<not> is_bad_resource_url u) (map strip (strings_of urls))"

text \<open>The code points for which \<open>str.isspace\<close> holds, by their ranges.\<close>

definition unicode_isspace :: "int \<Rightarrow> bool" where
  "unicode_isspace n =
     ((0x09 \<le> n \<and> n \<le> 0x0D) \<or> (0x1C \<le> n \<and> n \<le> 0x20) \<or> n = 0x85 \<or> n = 0xA0 \<or>
      n = 0x1680 \<or> (0x2000 \<le> n \<and> n \<le> 0x200A) \<or> n = 0x2028 \<or> n = 0x2029 \<or>
      n = 0x202F \<or> n = 0x205F \<or> n = 0x3000)"

text \<open>A text made of whitespace characters only.\<close>

definition spaces :: "string \<Rightarrow> bool" where
  "spaces a = (\<exists>xs. set xs \<subseteq> set whitespace \<and> a = concat xs)"

text \<open>Every element kept where it first occurs, its later occurrences removed.\<close>

fun first_occurrences :: "'a list \<Rightarrow> 'a list" where
  "first_occurrences [] = []"
| "first_occurrences (x # xs) = x # first_occurrences (removeAll x xs)"

text \<open>A path \<open>write_text\<close> can write to: not a directory, inside a directory.\<close>

definition writable :: "filesystem \<Rightarrow> path \<Rightarrow> bool" where
  "writable f p = (p \<noteq> [] \<and> f p \<noteq> Some Dir \<and> (butlast p = [] \<or> f (butlast p) = Some Dir))"

text \<open>One record of the index: number, tab, URL.\<close>

definition record_line :: "int \<times> string \<Rightarrow> string" where
  "record_line r = str_int (fst r) @ [CHR 0x09] @ snd r"

text \<open>One failed attempt: the request, then the sleep of \<open>0.5 * attempt\<close> seconds.\<close>

definition backoff :: "string \<Rightarrow> int \<Rightarrow> event list" where
  "backoff url attempt = [Get url, Sleep (1 / 2 * of_int attempt)]"

text \<open>The declared content type: \<open>resp.headers.get("Content-Type") or ""\<close>.\<close>

definition declared_type :: "response \<Rightarrow> string" where
  "declared_type resp = (case content_type resp of None \<Rightarrow> [] | Some v \<Rightarrow> v)"

text \<open>
  The dict read from the input file, when the file can be read, its text parsed, and
  the value at the top is an object.
\<close>

definition parsed :: "(string \<Rightarrow> json option) \<Rightarrow> path \<Rightarrow> world \<Rightarrow> (string \<times> json) list option" where
  "parsed json_loads file_path w =
     (case fs w file_path of
        Some (File txt) \<Rightarrow> (case json_loads txt of Some (JObj data) \<Rightarrow> Some data | _ \<Rightarrow> None)
      | _ \<Rightarrow> None)"

text \<open>\<open>isinstance(v, list)\<close>.\<close>

fun is_list :: "json \<Rightarrow> bool" where
  "is_list (JArr _) = True"
| "is_list _ = False"

text \<open>
  Nothing but directories on the way to the directory \<open>d\<close>: each of its ancestors and
  \<open>d\<close> itself is absent or a directory.
\<close>

definition can_make_dirs :: "filesystem \<Rightarrow> path \<Rightarrow> bool" where
  "can_make_dirs f d = (\<forall>q \<in> set (tl (prefixes d)). f q = None \<or> f q = Some Dir)"



text \<open>The URLs of the progress lines \<open>[SKIP] url\<close>, in order.\<close>

fun skipped_of :: "event list \<Rightarrow> string list" where
  "skipped_of [] = []"
| "skipped_of (Print line # es) =
     (if startswith line ''[SKIP] '' then drop 7 line # skipped_of es else skipped_of es)"
| "skipped_of (_ # es) = skipped_of es"

text \<open>
  A small run for the examples: a target of one page, a network that always answers
  with an HTML page, and an empty file system.
\<close>

definition one_page_config :: config where
  "one_page_config = default_config\<lparr>MAX_PAGES := 1\<rparr>"

definition html_network :: network where
  "html_network k url =
     Responded \<lparr>status_code = 200, content_type = Some ''text/html'', resp_text = ''<p>''\<rparr>"

definition empty_world :: world where
  "empty_world = \<lparr>fs = Map.empty, trace = []\<rparr>"

text \<open>
  A file system on which the run meets no I/O error: nothing but directories on the
  way to the output directory, no directory under the name of a page, an index path
  that can be written and that is not the output directory or one of its ancestors.
\<close>

definition ready :: "config \<Rightarrow> filesystem \<Rightarrow> bool" where
  "ready cfg f =
     (can_make_dirs f (OUTPUT_DIR cfg) \<and>
      (\<forall>n. f (page_path (OUTPUT_DIR cfg) n) \<noteq> Some Dir) \<and>
      writable f (INDEX_PATH cfg) \<and>
      \<not> prefix (INDEX_PATH cfg) (OUTPUT_DIR cfg))"

text \<open>A network on which the URL \<open>b\<close> answers 404 and every other URL an HTML page.\<close>

definition mixed_network :: network where
  "mixed_network k url =
     (if url = ''b''
      then Responded \<lparr>status_code = 404, content_type = Some ''text/html'', resp_text = ''no''\<rparr>
      else Responded \<lparr>status_code = 200, content_type = Some ''text/html'', resp_text = ''<p>''\<rparr>)"

text \<open>An input file whose parsed content lists the URLs \<open>b\<close> and \<open>a\<close>.\<close>

definition urls_b_a :: "string \<Rightarrow> json option" where
  "urls_b_a s = Some (JObj [(''urls'', JArr [JStr ''b'', JStr ''a''])])"

definition input_world :: world where
  "input_world = \<lparr>fs = [[''urls.json''] \<mapsto> File ''{}''], trace = []\<rparr>"

section \<open>Facts about the string functions\<close>

lemma split_not_Nil: "split sep s \<noteq> []"
  by (induction s) (auto split: list.splits)

lemma hd_split: "hd (split sep s) = takeWhile (\<lambda>c. c \<noteq> sep) s"
  by (induction s) (auto split: list.splits simp: split_not_Nil)

lemma endswith_suffix: "endswith s suf \<longleftrightarrow> suffix suf s"
proof
  assume "endswith s suf"
  then have "s = take (length s - length suf) s @ suf"
    by (metis append_take_drop_id endswith_def)
  then show "suffix suf s"
    by (metis suffixI)
next
  assume "suffix suf s"
  then obtain p where "s = p @ suf"
    by (auto simp: suffix_def)
  then show "endswith s suf"
    by (simp add: endswith_def)
qed

lemma ext_loop_iff: "ext_loop u exts \<longleftrightarrow> (\<exists>ext \<in> set exts. suffix ext u)"
  by (induction exts) (auto simp: endswith_suffix)

lemma lower_char_keeps:
  assumes "of_char c < (65::nat)"
  shows "lower_char d = c \<longleftrightarrow> d = c"
proof (cases "65 \<le> (of_char d :: nat) \<and> (of_char d :: nat) \<le> 90")
  case False
  then show ?thesis
    by (auto simp: lower_char_def Let_def)
next
  case True
  then have up: "lower_char d = char_of (of_char d + (32::nat))"
    by (simp add: lower_char_def Let_def)
  have "(of_char (char_of (of_char d + (32::nat)) :: char) :: nat) = (of_char d + 32) mod 256"
    by (simp add: of_char_of)
  also have "\<dots> = of_char d + 32"
    using True by simp
  finally have "(of_char (lower_char d) :: nat) \<ge> 97"
    using True up by simp
  with assms True show ?thesis
    by auto
qed

lemma takeWhile_lower:
  assumes "of_char c < (65::nat)"
  shows "takeWhile (\<lambda>x. x \<noteq> c) (lower s) = lower (takeWhile (\<lambda>x. x \<noteq> c) s)"
  by (induction s) (auto simp: lower_def lower_char_keeps [OF assms])

lemma takeWhile_twice:
  "takeWhile P (takeWhile Q xs) = takeWhile (\<lambda>x. Q x \<and> P x) xs"
  by (induction xs) auto

section \<open>The resource filter\<close>

text \<open>
  Claim C6. \<open>is_bad_resource_url\<close> rejects a URL exactly when the URL, cut before its
  first \<open>?\<close> or \<open>#\<close> (query string and fragment stripped) and lower-cased, ends with one
  of the extensions of \<open>DISALLOWED_EXTENSIONS\<close>; nothing else in the URL matters.
\<close>

theorem is_bad_resource_url_iff:
  "is_bad_resource_url url \<longleftrightarrow>
     (\<exists>ext \<in> set DISALLOWED_EXTENSIONS.
        suffix ext (lower (takeWhile (\<lambda>c. c \<noteq> CHR ''?'' \<and> c \<noteq> CHR ''#'') url)))"
proof -
  have "hd (split CHR ''#'' (hd (split CHR ''?'' (lower url)))) =
        lower (takeWhile (\<lambda>c. c \<noteq> CHR ''?'' \<and> c \<noteq> CHR ''#'') url)"
    by (simp add: hd_split takeWhile_lower takeWhile_twice)
  then show ?thesis
    by (simp add: is_bad_resource_url_def ext_loop_iff)
qed

theorem is_bad_resource_url_iff_witness:
  "is_bad_resource_url ''https://a.test/Image.PNG?x=1#top'' \<and>
   \<not> is_bad_resource_url ''https://a.test/page?img=a.png''"
proof -
  have "(\<exists>ext \<in> set DISALLOWED_EXTENSIONS.
           suffix ext (lower (takeWhile (\<lambda>c. c \<noteq> CHR ''?'' \<and> c \<noteq> CHR ''#'')
             ''https://a.test/Image.PNG?x=1#top'')))"
    by code_simp
  moreover have "\<not> (\<exists>ext \<in> set DISALLOWED_EXTENSIONS.
           suffix ext (lower (takeWhile (\<lambda>c. c \<noteq> CHR ''?'' \<and> c \<noteq> CHR ''#'')
             ''https://a.test/page?img=a.png'')))"
    by code_simp
  ultimately show ?thesis
    using is_bad_resource_url_iff [of "''https://a.test/Image.PNG?x=1#top''"]
      is_bad_resource_url_iff [of "''https://a.test/page?img=a.png''"]
    by blast
qed

section \<open>URL normalisation\<close>

lemma set_first_occurrences: "set (first_occurrences ys) = set ys"
  by (induction ys rule: first_occurrences.induct) auto

lemma distinct_first_occurrences: "distinct (first_occurrences ys)"
  by (induction ys rule: first_occurrences.induct) (auto simp: set_first_occurrences)

lemma candidates_Nil: "candidates [] = []"
  by (simp add: candidates_def)

lemma candidates_Cons:
  "candidates (j # js) =
     (case j of
        JStr s \<Rightarrow> (if strip s \<noteq> [] \<and> \<not> is_bad_resource_url (strip s) then [strip s] else [])
      | _ \<Rightarrow> []) @ candidates js"
  by (cases j) (simp_all add: candidates_def)

lemma removeAll_unseen:
  "removeAll u (filter (\<lambda>x. x \<notin> set out) ys) = filter (\<lambda>x. x \<notin> set (out @ [u])) ys"
  by (induction ys) auto

text \<open>
  The invariant of the loop when \<open>seen\<close> holds exactly the elements of \<open>out\<close>: what is
  still to come is appended, less what \<open>out\<close> already has.
\<close>

lemma normalize_loop_inv:
  "normalize_loop us (set out) out =
     out @ first_occurrences (filter (\<lambda>u. u \<notin> set out) (candidates us))"
proof (induction us arbitrary: out)
  case Nil
  show ?case by (simp add: candidates_Nil)
next
  case (Cons j js)
  show ?case
  proof (cases j)
    case (JStr s)
    have ins: "insert (strip s) (set out) = set (out @ [strip s])"
      by simp
    show ?thesis
      unfolding JStr
      by (simp add: candidates_Cons Let_def Cons.IH ins removeAll_unseen del: set_append)
  qed (simp_all add: candidates_Cons Cons.IH)
qed

lemma utf8_not_Nil: "utf8 n \<noteq> []"
  by (simp add: utf8_def)

lemma whitespace_not_Nil: "x \<in> set whitespace \<Longrightarrow> x \<noteq> []"
proof -
  assume "x \<in> set whitespace"
  then obtain n where "x = utf8 n"
    unfolding whitespace_def by (metis imageE list.set_map)
  then show ?thesis
    by (simp add: utf8_not_Nil)
qed

lemma WHITESPACE_iff: "n \<in> set WHITESPACE \<longleftrightarrow> unicode_isspace n"
proof
  assume "n \<in> set WHITESPACE"
  then show "unicode_isspace n"
    by (auto simp: WHITESPACE_def unicode_isspace_def)
next
  assume "unicode_isspace n"
  then consider "0x09 \<le> n \<and> n \<le> 0x0D" | "0x1C \<le> n \<and> n \<le> 0x20"
    | "0x2000 \<le> n \<and> n \<le> 0x200A"
    | "n = 0x85 \<or> n = 0xA0 \<or> n = 0x1680 \<or> n = 0x2028 \<or> n = 0x2029 \<or> n = 0x202F \<or>
       n = 0x205F \<or> n = 0x3000"
    unfolding unicode_isspace_def by blast
  then show "n \<in> set WHITESPACE"
  proof cases
    case 1
    then have "n = 9 \<or> n = 10 \<or> n = 11 \<or> n = 12 \<or> n = 13"
      by arith
    then show ?thesis
      by (auto simp: WHITESPACE_def)
  next
    case 2
    then have "n = 28 \<or> n = 29 \<or> n = 30 \<or> n = 31 \<or> n = 32"
      by arith
    then show ?thesis
      by (auto simp: WHITESPACE_def)
  next
    case 3
    then have "n = 8192 \<or> n = 8193 \<or> n = 8194 \<or> n = 8195 \<or> n = 8196 \<or> n = 8197 \<or>
        n = 8198 \<or> n = 8199 \<or> n = 8200 \<or> n = 8201 \<or> n = 8202"
      by arith
    then show ?thesis
      by (auto simp: WHITESPACE_def)
  next
    case 4
    then show ?thesis
      by (auto simp: WHITESPACE_def)
  qed
qed

lemma whitespace_iff: "x \<in> set whitespace \<longleftrightarrow> (\<exists>n. unicode_isspace n \<and> x = utf8 n)"
  unfolding whitespace_def by (auto simp: WHITESPACE_iff [symmetric])

lemma leading_space_cases:
  "(leading_space s = 0 \<and> (\<forall>x \<in> set whitespace. \<not> prefix x s)) \<or>
   (\<exists>x \<in> set whitespace. prefix x s \<and> length x = leading_space s \<and> leading_space s \<noteq> 0)"
proof (cases "find (\<lambda>x. prefix x s) whitespace")
  case None
  then have "leading_space s = 0"
    by (simp add: leading_space_def)
  moreover from None have "\<forall>x \<in> set whitespace. \<not> prefix x s"
    by (simp add: find_None_iff)
  ultimately show ?thesis
    by simp
next
  case (Some x)
  then have "x \<in> set whitespace" and "prefix x s"
    by (auto simp: find_Some_iff)
  moreover from this have "length x \<noteq> 0"
    by (simp add: whitespace_not_Nil)
  moreover from Some have "leading_space s = length x"
    by (simp add: leading_space_def)
  ultimately show ?thesis
    by auto
qed

lemma leading_space_0: "leading_space s = 0 \<Longrightarrow> x \<in> set whitespace \<Longrightarrow> \<not> prefix x s"
  using leading_space_cases [of s] by auto

lemma leading_space_pos:
  "leading_space s \<noteq> 0 \<Longrightarrow> \<exists>x \<in> set whitespace. prefix x s \<and> length x = leading_space s"
  using leading_space_cases [of s] by auto

lemma trailing_space_cases:
  "(trailing_space s = 0 \<and> (\<forall>x \<in> set whitespace. \<not> suffix x s)) \<or>
   (\<exists>x \<in> set whitespace. suffix x s \<and> length x = trailing_space s \<and> trailing_space s \<noteq> 0)"
proof (cases "find (\<lambda>x. suffix x s) whitespace")
  case None
  then have "trailing_space s = 0"
    by (simp add: trailing_space_def)
  moreover from None have "\<forall>x \<in> set whitespace. \<not> suffix x s"
    by (simp add: find_None_iff)
  ultimately show ?thesis
    by simp
next
  case (Some x)
  then have "x \<in> set whitespace" and "suffix x s"
    by (auto simp: find_Some_iff)
  moreover from this have "length x \<noteq> 0"
    by (simp add: whitespace_not_Nil)
  moreover from Some have "trailing_space s = length x"
    by (simp add: trailing_space_def)
  ultimately show ?thesis
    by auto
qed

lemma trailing_space_0: "trailing_space s = 0 \<Longrightarrow> x \<in> set whitespace \<Longrightarrow> \<not> suffix x s"
  using trailing_space_cases [of s] by auto

lemma trailing_space_pos:
  "trailing_space s \<noteq> 0 \<Longrightarrow> \<exists>x \<in> set whitespace. suffix x s \<and> length x = trailing_space s"
  using trailing_space_cases [of s] by auto

lemma spaces_Nil: "spaces []"
  unfolding spaces_def by (intro exI [of _ "[]"]) simp

lemma spaces_Cons: "x \<in> set whitespace \<Longrightarrow> spaces a \<Longrightarrow> spaces (x @ a)"
proof -
  assume x: "x \<in> set whitespace" and "spaces a"
  then obtain xs where "set xs \<subseteq> set whitespace" and "a = concat xs"
    unfolding spaces_def by blast
  with x have "set (x # xs) \<subseteq> set whitespace \<and> x @ a = concat (x # xs)"
    by simp
  then show ?thesis
    unfolding spaces_def by blast
qed

lemma spaces_snoc: "x \<in> set whitespace \<Longrightarrow> spaces b \<Longrightarrow> spaces (b @ x)"
proof -
  assume x: "x \<in> set whitespace" and "spaces b"
  then obtain xs where "set xs \<subseteq> set whitespace" and "b = concat xs"
    unfolding spaces_def by blast
  with x have "set (xs @ [x]) \<subseteq> set whitespace \<and> b @ x = concat (xs @ [x])"
    by simp
  then show ?thesis
    unfolding spaces_def by blast
qed

lemma lstrip_trims:
  "\<exists>a. spaces a \<and> s = a @ lstrip s \<and> (\<forall>x \<in> set whitespace. \<not> prefix x (lstrip s))"
proof (induction s rule: lstrip.induct)
  case (1 s)
  show ?case
  proof (cases "leading_space s = 0")
    case True
    then have same: "lstrip s = s"
      by (subst lstrip.simps) simp
    from True have "\<forall>x \<in> set whitespace. \<not> prefix x s"
      by (auto dest: leading_space_0)
    with same spaces_Nil show ?thesis
      by (intro exI [of _ "[]"]) simp
  next
    case False
    define t where "t = drop (leading_space s) s"
    from leading_space_pos [OF False] obtain x where x: "x \<in> set whitespace"
      and p: "prefix x s" and len: "length x = leading_space s"
      by blast
    from False have step: "lstrip s = lstrip t"
      unfolding t_def by (subst lstrip.simps) simp
    from "1.IH" [OF False] obtain a where a: "spaces a"
      and eq: "t = a @ lstrip t"
      and none: "\<forall>y \<in> set whitespace. \<not> prefix y (lstrip t)"
      unfolding t_def by blast
    from p len have "s = x @ t"
      unfolding t_def by (auto simp: prefix_def)
    with eq have "s = (x @ a) @ lstrip t"
      by (metis append_assoc)
    with spaces_Cons [OF x a] none show ?thesis
      unfolding step by (intro exI [of _ "x @ a"] conjI)
  qed
qed

lemma rstrip_trims:
  "\<exists>b. spaces b \<and> s = rstrip s @ b \<and> (\<forall>x \<in> set whitespace. \<not> suffix x (rstrip s))"
proof (induction s rule: rstrip.induct)
  case (1 s)
  show ?case
  proof (cases "trailing_space s = 0")
    case True
    then have same: "rstrip s = s"
      by (subst rstrip.simps) simp
    from True have "\<forall>x \<in> set whitespace. \<not> suffix x s"
      by (auto dest: trailing_space_0)
    with same spaces_Nil show ?thesis
      by (intro exI [of _ "[]"]) simp
  next
    case False
    define t where "t = take (length s - trailing_space s) s"
    from trailing_space_pos [OF False] obtain x where x: "x \<in> set whitespace"
      and p: "suffix x s" and len: "length x = trailing_space s"
      by blast
    from False have step: "rstrip s = rstrip t"
      unfolding t_def by (subst rstrip.simps) simp
    from "1.IH" [OF False] obtain b where b: "spaces b"
      and eq: "t = rstrip t @ b"
      and none: "\<forall>y \<in> set whitespace. \<not> suffix y (rstrip t)"
      unfolding t_def by blast
    from p len have "s = t @ x"
      unfolding t_def by (auto simp: suffix_def)
    with eq have "s = rstrip t @ (b @ x)"
      by (metis append_assoc)
    with spaces_snoc [OF x b] none show ?thesis
      unfolding step by (intro exI [of _ "b @ x"] conjI)
  qed
qed

text \<open>
  \<open>strip\<close> takes whitespace characters, and nothing else, off both ends, and what is
  left neither starts nor ends with a whitespace character.
\<close>

lemma strip_trims:
  "\<exists>a b. s = a @ strip s @ b \<and> spaces a \<and> spaces b \<and>
         (\<forall>x \<in> set whitespace. \<not> prefix x (strip s) \<and> \<not> suffix x (strip s))"
proof -
  from lstrip_trims [of s] obtain a where a: "spaces a" "s = a @ lstrip s"
    and l: "\<forall>x \<in> set whitespace. \<not> prefix x (lstrip s)"
    by blast
  from rstrip_trims [of "lstrip s"] obtain b where b: "spaces b" "lstrip s = strip s @ b"
    and r: "\<forall>x \<in> set whitespace. \<not> suffix x (strip s)"
    unfolding strip_def by blast
  have "\<not> prefix x (strip s)" if "x \<in> set whitespace" for x
  proof
    assume "prefix x (strip s)"
    then have "prefix x (strip s @ b)"
      by (rule prefix_prefix)
    with b(2) l that show False
      by simp
  qed
  with a b r show ?thesis
    by (intro exI [of _ a] exI [of _ b]) simp
qed

text \<open>
  Claim C5. \<open>normalize_urls\<close> returns the string entries of its input (entries of any
  other type are dropped), each trimmed of its surrounding whitespace by \<open>strip\<close>,
  without the entries that are empty after trimming and without those
  \<open>is_bad_resource_url\<close> rejects, each remaining entry once, at the place of its first
  occurrence. The result has no duplicates. The whitespace trimmed is Unicode
  whitespace: the characters trimmed are exactly those of the code points for which
  \<open>str.isspace\<close> holds.
\<close>

theorem normalize_urls_spec:
  "normalize_urls urls = first_occurrences (candidates urls) \<and>
   distinct (normalize_urls urls) \<and>
   (\<forall>s. \<exists>a b. s = a @ strip s @ b \<and> spaces a \<and> spaces b \<and>
      (\<forall>x \<in> set whitespace. \<not> prefix x (strip s) \<and> \<not> suffix x (strip s))) \<and>
   (\<forall>x. x \<in> set whitespace \<longleftrightarrow> (\<exists>n. unicode_isspace n \<and> x = utf8 n))"
proof -
  have "normalize_urls urls = first_occurrences (candidates urls)"
    using normalize_loop_inv [of urls "[]"] by (simp add: normalize_urls_def)
  moreover from this have "distinct (normalize_urls urls)"
    by (simp add: distinct_first_occurrences)
  ultimately show ?thesis
    using strip_trims whitespace_iff by blast
qed

theorem normalize_urls_spec_witness:
  "normalize_urls
     [JStr ''https://a.test/page'', JStr ''https://a.test/image.png'', JInt 3, JStr ''   '',
      JStr [CHR 0xC2, CHR 0xA0],
      JStr (''https://a.test/x.png'' @ [CHR 0xE3, CHR 0x80, CHR 0x80]),
      JStr ''https://b.test/'',
      JStr ([CHR 0xC2, CHR 0x85] @ '' https://a.test/page'' @ [CHR 0xE2, CHR 0x80, CHR 0xA8])]
   = [''https://a.test/page'', ''https://b.test/''] \<and>
   [CHR 0xC2, CHR 0xA0] \<in> set whitespace \<and> [CHR 0xE3, CHR 0x80, CHR 0x80] \<in> set whitespace"
proof -
  let ?urls = "[JStr ''https://a.test/page'', JStr ''https://a.test/image.png'', JInt 3,
      JStr ''   '', JStr [CHR 0xC2, CHR 0xA0],
      JStr (''https://a.test/x.png'' @ [CHR 0xE3, CHR 0x80, CHR 0x80]),
      JStr ''https://b.test/'',
      JStr ([CHR 0xC2, CHR 0x85] @ '' https://a.test/page'' @ [CHR 0xE2, CHR 0x80, CHR 0xA8])]"
  have "first_occurrences (candidates ?urls) = [''https://a.test/page'', ''https://b.test/'']"
    by code_simp
  moreover have "unicode_isspace 0xA0 \<and> [CHR 0xC2, CHR 0xA0] = utf8 0xA0"
    and "unicode_isspace 0x3000 \<and> [CHR 0xE3, CHR 0x80, CHR 0x80] = utf8 0x3000"
    by code_simp+
  ultimately show ?thesis
    using normalize_urls_spec [of ?urls] by metis
qed

section \<open>The index file\<close>

lemma join_terminated: "ps \<noteq> [] \<Longrightarrow> join sep ps @ sep = concat (map (\<lambda>p. p @ sep) ps)"
  by (induction sep ps rule: join.induct) simp_all

lemma write_text_writable:
  "writable (fs w) p \<Longrightarrow>
     write_text p s w = (Inr (), emit (WriteText p s) (w\<lparr>fs := (fs w)(p \<mapsto> File s)\<rparr>))"
  by (auto simp: write_text_def writable_def)

text \<open>
  Claim C10. The serialised index is the records, each \<open>number TAB url\<close>, joined by
  newlines, with one newline appended: every record ends with a newline, and an empty
  index is the single character newline, not the empty text. \<open>write_index\<close> writes
  that text to the index path whenever the path can be written, also for an empty index.
\<close>

theorem write_index_serialises:
  "index_text [] = [CHR 0x0A] \<and>
   index_text index_lines = join [CHR 0x0A] (map record_line index_lines) @ [CHR 0x0A] \<and>
   (index_lines \<noteq> [] \<longrightarrow>
      index_text index_lines = concat (map (\<lambda>r. record_line r @ [CHR 0x0A]) index_lines)) \<and>
   (writable (fs w) index_path \<longrightarrow>
      (\<exists>w'. write_index index_path index_lines w = (Inr (), w') \<and>
            fs w' index_path = Some (File (index_text index_lines)) \<and>
            trace w' = trace w @ [WriteText index_path (index_text index_lines)]))"
proof -
  have fmt: "(\<lambda>(n, url). str_int n @ [CHR 0x09] @ url) = record_line"
    by (auto simp: record_line_def)
  have a: "index_text [] = [CHR 0x0A]"
    by (simp add: index_text_def)
  have b: "index_text index_lines = join [CHR 0x0A] (map record_line index_lines) @ [CHR 0x0A]"
    by (simp only: index_text_def fmt)
  have c: "index_text index_lines = concat (map (\<lambda>r. record_line r @ [CHR 0x0A]) index_lines)"
    if "index_lines \<noteq> []"
    using that join_terminated [of "map record_line index_lines" "[CHR 0x0A]"]
    by (simp add: b comp_def)
  have d: "\<exists>w'. write_index index_path index_lines w = (Inr (), w') \<and>
            fs w' index_path = Some (File (index_text index_lines)) \<and>
            trace w' = trace w @ [WriteText index_path (index_text index_lines)]"
    if "writable (fs w) index_path"
    using that by (simp add: write_index_def write_text_writable emit_def)
  from a b c d show ?thesis
    by blast
qed

theorem write_index_serialises_witness:
  "index_text [] = [CHR 0x0A] \<and> length (index_text []) = 1 \<and>
   index_text [(1, ''u''), (2, ''v'')] = [CHR ''1'', CHR 0x09, CHR ''u'', CHR 0x0A, CHR ''2'', CHR 0x09, CHR ''v'', CHR 0x0A] \<and>
   (\<exists>w'. write_index [''index.txt''] [] \<lparr>fs = Map.empty, trace = []\<rparr> = (Inr (), w') \<and>
         fs w' [''index.txt''] = Some (File [CHR 0x0A]) \<and>
         trace w' = [WriteText [''index.txt''] [CHR 0x0A]])"
proof -
  have wr: "writable (fs \<lparr>fs = Map.empty, trace = []\<rparr>) [''index.txt'']"
    by (simp add: writable_def)
  have two: "concat (map (\<lambda>r. record_line r @ [CHR 0x0A]) [(1, ''u''), (2, ''v'')]) =
    [CHR ''1'', CHR 0x09, CHR ''u'', CHR 0x0A, CHR ''2'', CHR 0x09, CHR ''v'', CHR 0x0A]"
    by code_simp
  show ?thesis
    using write_index_serialises [of "[]" "\<lparr>fs = Map.empty, trace = []\<rparr>" "[''index.txt'']"]
      write_index_serialises [of "[(1, ''u''), (2, ''v'')]" "\<lparr>fs = Map.empty, trace = []\<rparr>" "[''index.txt'']"]
      wr two
    by simp
qed

section \<open>The fetcher\<close>

lemma gets_of_append: "gets_of (xs @ ys) = gets_of xs @ gets_of ys"
  by (induction xs rule: gets_of.induct) simp_all

lemma writes_of_append: "writes_of (xs @ ys) = writes_of xs @ writes_of ys"
  by (induction xs rule: writes_of.induct) simp_all

lemma fetch_loop_all_raised:
  "\<forall>i < length attempts. net (length (gets_of (trace w)) + i) url = Raised \<Longrightarrow>
     fetch_loop net url attempts w =
       (None, w\<lparr>trace := trace w @ concat (map (backoff url) attempts)\<rparr>)"
proof (induction attempts arbitrary: w)
  case Nil
  show ?case by simp
next
  case (Cons a as)
  let ?w1 = "sleep (1 / 2 * of_int a) (emit (Get url) w)"
  from Cons.prems have first: "net (length (gets_of (trace w))) url = Raised"
    by fastforce
  have "\<forall>i < length as. net (length (gets_of (trace ?w1)) + i) url = Raised"
  proof (intro allI impI)
    fix i assume "i < length as"
    then have "net (length (gets_of (trace w)) + Suc i) url = Raised"
      using Cons.prems by fastforce
    then show "net (length (gets_of (trace ?w1)) + i) url = Raised"
      by (simp add: sleep_def emit_def gets_of_append)
  qed
  then have "fetch_loop net url as ?w1 =
      (None, ?w1\<lparr>trace := trace ?w1 @ concat (map (backoff url) as)\<rparr>)"
    by (rule Cons.IH)
  then show ?case
    using first unfolding backoff_def by (simp add: session_get_def sleep_def emit_def)
qed

text \<open>
  Claim C3. When every request for the URL raises, \<open>fetch_html\<close> makes exactly
  \<open>RETRIES\<close> requests (3 by default), sleeps \<open>0.5 * attempt\<close> seconds after each of
  them, the last one included, and returns \<open>None\<close>. It does nothing else.
\<close>

theorem fetch_html_all_raised:
  assumes "\<forall>i < nat (RETRIES cfg). net (length (gets_of (trace w)) + i) url = Raised"
  shows "\<exists>w'. fetch_html cfg net url w = (None, w') \<and> fs w' = fs w \<and>
           trace w' = trace w @ concat (map (backoff url) [1..RETRIES cfg]) \<and>
           length (gets_of (trace w')) = length (gets_of (trace w)) + nat (RETRIES cfg)"
proof -
  have len: "length [1..RETRIES cfg] = nat (RETRIES cfg)"
    by simp
  have "fetch_html cfg net url w =
      (None, w\<lparr>trace := trace w @ concat (map (backoff url) [1..RETRIES cfg])\<rparr>)"
    unfolding fetch_html_def using assms by (intro fetch_loop_all_raised) (simp only: len)
  moreover have "length (gets_of (concat (map (backoff url) as))) = length as" for as
    by (induction as) (simp_all add: gets_of_append backoff_def)
  ultimately show ?thesis
    by (simp add: gets_of_append)
qed

theorem fetch_html_all_raised_witness:
  "\<exists>w'. fetch_html default_config (\<lambda>k u. Raised) ''https://a.test/slow'' \<lparr>fs = Map.empty, trace = []\<rparr>
           = (None, w') \<and>
         trace w' = [Get ''https://a.test/slow'', Sleep (1 / 2), Get ''https://a.test/slow'', Sleep 1,
                     Get ''https://a.test/slow'', Sleep (3 / 2)] \<and>
         length (gets_of (trace w')) = 3"
proof -
  have ups: "[1..RETRIES default_config] = [1, 2, 3]"
    by (simp add: default_config_def upto_rec1)
  have three: "nat (RETRIES default_config) = 3"
    by (simp add: default_config_def)
  from fetch_html_all_raised [of default_config "\<lambda>k u. Raised" "\<lparr>fs = Map.empty, trace = []\<rparr>"
        "''https://a.test/slow''"]
  obtain w' where "fetch_html default_config (\<lambda>k u. Raised) ''https://a.test/slow''
        \<lparr>fs = Map.empty, trace = []\<rparr> = (None, w')"
    and "trace w' = trace \<lparr>fs = Map.empty, trace = []\<rparr> @
          concat (map (backoff ''https://a.test/slow'') [1..RETRIES default_config])"
    and "length (gets_of (trace w')) =
          length (gets_of (trace \<lparr>fs = Map.empty, trace = []\<rparr>)) + nat (RETRIES default_config)"
    by auto
  then show ?thesis
    by (simp add: ups three backoff_def)
qed

lemma startswith_prefix: "startswith s pre \<longleftrightarrow> prefix pre s"
  by (auto simp: startswith_def prefix_def) (metis append_eq_conv_conj)

lemma contains_sublist: "contains s sub \<longleftrightarrow> sublist sub s"
  by (induction s) (auto simp: startswith_prefix sublist_Cons_right)

text \<open>
  Claim C4. When the first request returns a response, \<open>fetch_html\<close> makes that one
  request and no other, never sleeps, and returns the body exactly when the status is
  200 and the lower-cased \<open>Content-Type\<close> contains \<open>text/html\<close> or
  \<open>application/xhtml+xml\<close>; otherwise it returns \<open>None\<close>.
\<close>

theorem fetch_html_first_response:
  assumes "1 \<le> RETRIES cfg"
    and "net (length (gets_of (trace w))) url = Responded resp"
  shows "fetch_html cfg net url w =
           (if status_code resp = 200 \<and>
               (sublist ''text/html'' (lower (declared_type resp)) \<or>
                sublist ''application/xhtml+xml'' (lower (declared_type resp)))
            then Some (resp_text resp) else None,
            w\<lparr>trace := trace w @ [Get url]\<rparr>)"
proof -
  from assms(1) obtain rest where "[1..RETRIES cfg] = 1 # rest"
    by (auto simp: upto_rec1)
  then show ?thesis
    using assms(2)
    by (simp add: fetch_html_def session_get_def emit_def is_html_response_def
        contains_sublist declared_type_def Let_def)
qed

theorem fetch_html_first_response_witness:
  "fetch_html default_config (\<lambda>k u. Responded \<lparr>status_code = 200, content_type = Some ''Text/HTML; charset=utf-8'', resp_text = ''<p>''\<rparr>) ''u'' \<lparr>fs = Map.empty, trace = []\<rparr>
     = (Some ''<p>'', \<lparr>fs = Map.empty, trace = [Get ''u'']\<rparr>) \<and>
   fetch_html default_config (\<lambda>k u. Responded \<lparr>status_code = 404, content_type = Some ''text/html'', resp_text = ''<p>''\<rparr>) ''u'' \<lparr>fs = Map.empty, trace = []\<rparr>
     = (None, \<lparr>fs = Map.empty, trace = [Get ''u'']\<rparr>) \<and>
   fetch_html default_config (\<lambda>k u. Responded \<lparr>status_code = 200, content_type = Some ''image/png'', resp_text = ''<p>''\<rparr>) ''u'' \<lparr>fs = Map.empty, trace = []\<rparr>
     = (None, \<lparr>fs = Map.empty, trace = [Get ''u'']\<rparr>)"
proof -
  have r: "1 \<le> RETRIES default_config"
    by (simp add: default_config_def)
  have a: "sublist ''text/html'' (lower (declared_type \<lparr>status_code = 200, content_type = Some ''Text/HTML; charset=utf-8'', resp_text = ''<p>''\<rparr>))"
    unfolding contains_sublist [symmetric] by code_simp
  have b: "\<not> sublist ''text/html'' (lower (declared_type \<lparr>status_code = 200, content_type = Some ''image/png'', resp_text = ''<p>''\<rparr>))"
    "\<not> sublist ''application/xhtml+xml'' (lower (declared_type \<lparr>status_code = 200, content_type = Some ''image/png'', resp_text = ''<p>''\<rparr>))"
    unfolding contains_sublist [symmetric] by code_simp+
  show ?thesis
    using fetch_html_first_response [OF r, of "\<lambda>k u. Responded \<lparr>status_code = 200, content_type = Some ''Text/HTML; charset=utf-8'', resp_text = ''<p>''\<rparr>" "\<lparr>fs = Map.empty, trace = []\<rparr>" "''u''"]
      fetch_html_first_response [OF r, of "\<lambda>k u. Responded \<lparr>status_code = 404, content_type = Some ''text/html'', resp_text = ''<p>''\<rparr>" "\<lparr>fs = Map.empty, trace = []\<rparr>" "''u''"]
      fetch_html_first_response [OF r, of "\<lambda>k u. Responded \<lparr>status_code = 200, content_type = Some ''image/png'', resp_text = ''<p>''\<rparr>" "\<lparr>fs = Map.empty, trace = []\<rparr>" "''u''"]
      a b
    by simp
qed

section \<open>Loading the URL list: failures\<close>

text \<open>
  Claim C7. \<open>load_urls\<close> fails exactly when the input cannot be read and parsed as an
  object, or when the object has a field \<open>urls\<close> that is not a list. When the field is
  missing, \<open>load_urls\<close> does not fail: it normalises the empty list and returns the
  empty list. When the field is a list, it returns that list normalised.
\<close>

theorem load_urls_fails_iff:
  "((\<exists>e. load_urls json_loads file_path w = Inl e) \<longleftrightarrow>
      parsed json_loads file_path w = None \<or>
      (\<exists>data v. parsed json_loads file_path w = Some data \<and>
                 map_of data ''urls'' = Some v \<and> \<not> is_list v)) \<and>
   (\<forall>data. parsed json_loads file_path w = Some data \<and> map_of data ''urls'' = None \<longrightarrow>
      load_urls json_loads file_path w = Inr (normalize_urls []) \<and> normalize_urls [] = []) \<and>
   (\<forall>data xs. parsed json_loads file_path w = Some data \<and> map_of data ''urls'' = Some (JArr xs) \<longrightarrow>
      load_urls json_loads file_path w = Inr (normalize_urls xs))"
proof (cases "parsed json_loads file_path w")
  case None
  then have "\<exists>e. load_urls json_loads file_path w = Inl e"
    by (auto simp: parsed_def load_urls_def read_text_def
        split: option.splits node.splits json.splits)
  with None show ?thesis
    by simp
next
  case (Some data)
  then obtain s where "fs w file_path = Some (File s)"
    and "json_loads s = Some (JObj data)"
    by (auto simp: parsed_def split: option.splits node.splits json.splits)
  then have eq: "load_urls json_loads file_path w =
      (case (case map_of data ''urls'' of None \<Rightarrow> JArr [] | Some v \<Rightarrow> v) of
         JArr xs \<Rightarrow> Inr (normalize_urls xs) | _ \<Rightarrow> Inl ValueError)"
    by (simp add: load_urls_def read_text_def Let_def)
  show ?thesis
  proof (cases "map_of data ''urls''")
    case None
    with Some eq show ?thesis
      by (simp add: normalize_urls_def)
  next
    case (Some v)
    with \<open>parsed json_loads file_path w = Some data\<close> eq show ?thesis
      by (cases v) auto
  qed
qed

theorem load_urls_fails_iff_witness:
  "load_urls (\<lambda>s. if s = ''{}'' then Some (JObj []) else None) [''urls.json'']
      \<lparr>fs = [[''urls.json''] \<mapsto> File ''{}''], trace = []\<rparr> = Inr [] \<and>
   (\<exists>e. load_urls (\<lambda>s. Some (JObj [(''urls'', JStr ''https://a.test/'')])) [''urls.json'']
      \<lparr>fs = [[''urls.json''] \<mapsto> File ''x''], trace = []\<rparr> = Inl e) \<and>
   (\<exists>e. load_urls (\<lambda>s. Some (JArr [])) [''urls.json'']
      \<lparr>fs = [[''urls.json''] \<mapsto> File ''[]''], trace = []\<rparr> = Inl e)"
proof -
  have a: "parsed (\<lambda>s. if s = ''{}'' then Some (JObj []) else None) [''urls.json'']
      \<lparr>fs = [[''urls.json''] \<mapsto> File ''{}''], trace = []\<rparr> = Some []"
    by (simp add: parsed_def)
  have b: "parsed (\<lambda>s. Some (JObj [(''urls'', JStr ''https://a.test/'')])) [''urls.json'']
      \<lparr>fs = [[''urls.json''] \<mapsto> File ''x''], trace = []\<rparr> = Some [(''urls'', JStr ''https://a.test/'')]"
    by (simp add: parsed_def)
  have c: "parsed (\<lambda>s. Some (JArr [])) [''urls.json'']
      \<lparr>fs = [[''urls.json''] \<mapsto> File ''[]''], trace = []\<rparr> = None"
    by (simp add: parsed_def)
  show ?thesis
    using load_urls_fails_iff [of "\<lambda>s. if s = ''{}'' then Some (JObj []) else None" "[''urls.json'']"
        "\<lparr>fs = [[''urls.json''] \<mapsto> File ''{}''], trace = []\<rparr>"]
      load_urls_fails_iff [of "\<lambda>s. Some (JObj [(''urls'', JStr ''https://a.test/'')])" "[''urls.json'']"
        "\<lparr>fs = [[''urls.json''] \<mapsto> File ''x''], trace = []\<rparr>"]
      load_urls_fails_iff [of "\<lambda>s. Some (JArr [])" "[''urls.json'']"
        "\<lparr>fs = [[''urls.json''] \<mapsto> File ''[]''], trace = []\<rparr>"]
    by (simp add: a b c)
qed

section \<open>Saving a page\<close>

lemma mkdir_chain_ok:
  "\<forall>q \<in> set ps. f q = None \<or> f q = Some Dir \<Longrightarrow>
     mkdir_chain ps f = Inr (\<lambda>q. if q \<in> set ps then Some Dir else f q)"
proof (induction ps arbitrary: f)
  case Nil
  show ?case by simp
next
  case (Cons p ps)
  show ?case
  proof (cases "f p")
    case None
    have "mkdir_chain ps (f(p \<mapsto> Dir)) =
        Inr (\<lambda>q. if q \<in> set ps then Some Dir else (f(p \<mapsto> Dir)) q)"
      using Cons.prems by (intro Cons.IH) auto
    with None show ?thesis
      by (auto simp: fun_eq_iff)
  next
    case (Some n)
    with Cons.prems have dir: "f p = Some Dir"
      by auto
    have "mkdir_chain ps f = Inr (\<lambda>q. if q \<in> set ps then Some Dir else f q)"
      using Cons.prems by (intro Cons.IH) auto
    with dir show ?thesis
      by (auto simp: fun_eq_iff)
  qed
qed

lemma mkdir_parents_exist_ok_ok:
  "can_make_dirs (fs w) d \<Longrightarrow>
     mkdir_parents_exist_ok d w =
       (Inr (), w\<lparr>fs := (\<lambda>q. if q \<in> set (tl (prefixes d)) then Some Dir else fs w q)\<rparr>)"
  by (simp add: mkdir_parents_exist_ok_def can_make_dirs_def mkdir_chain_ok)

lemma in_tl_prefixes: "q \<in> set (tl (prefixes d)) \<longleftrightarrow> q \<noteq> [] \<and> prefix q d"
  by (cases d) (auto simp: Cons_prefix_Cons prefix_Cons)

lemma page_path_not_prefix: "page_path d n \<notin> set (tl (prefixes d))"
  by (simp add: in_tl_prefixes page_path_def prefix_def)

lemma save_page_ok:
  assumes "can_make_dirs (fs w) d" and "fs w (page_path d n) \<noteq> Some Dir"
  shows "save_page d n html w =
     (Inr (page_path d n),
      emit (WriteText (page_path d n) html)
        (w\<lparr>fs := (\<lambda>q. if q \<in> set (tl (prefixes d)) then Some Dir else fs w q)
                   (page_path d n \<mapsto> File html)\<rparr>))"
proof -
  let ?w1 = "w\<lparr>fs := (\<lambda>q. if q \<in> set (tl (prefixes d)) then Some Dir else fs w q)\<rparr>"
  have "d = [] \<or> d \<in> set (tl (prefixes d))"
    by (simp add: in_tl_prefixes)
  then have "writable (fs ?w1) (page_path d n)"
    using assms(2) page_path_not_prefix [of d n]
    by (auto simp: writable_def page_path_def)
  then show ?thesis
    using assms(1)
    by (simp add: save_page_def mkdir_parents_exist_ok_ok write_text_writable Let_def)
qed

text \<open>
  Claim C8. Whether or not the output directory exists and whether or not a file of
  the page's name exists (nothing but directories on the way to the directory, and no
  directory under the page's name), \<open>save_page\<close> succeeds and returns the path
  \<open>output_dir / "{number}.txt"\<close>; afterwards the directory exists, the file holds the
  body, and nothing else has changed. Saving again under the same number succeeds,
  returns the same path and replaces the content; with the same body it leaves the
  file system as it was.
\<close>

theorem save_page_idempotent:
  assumes "can_make_dirs (fs w) d" and "fs w (page_path d n) \<noteq> Some Dir"
  shows "\<exists>w1. save_page d n html w = (Inr (page_path d n), w1) \<and>
           fs w1 (page_path d n) = Some (File html) \<and>
           (\<forall>q \<in> set (tl (prefixes d)). fs w1 q = Some Dir) \<and>
           (\<forall>q. q \<notin> set (tl (prefixes d)) \<and> q \<noteq> page_path d n \<longrightarrow> fs w1 q = fs w q) \<and>
           (\<forall>html'. \<exists>w2. save_page d n html' w1 = (Inr (page_path d n), w2) \<and>
                          fs w2 = (fs w1)(page_path d n \<mapsto> File html')) \<and>
           (\<exists>w2. save_page d n html w1 = (Inr (page_path d n), w2) \<and> fs w2 = fs w1)"
proof -
  let ?made = "\<lambda>w. (\<lambda>q. if q \<in> set (tl (prefixes d)) then Some Dir else fs w q)"
  let ?w1 = "emit (WriteText (page_path d n) html)
               (w\<lparr>fs := (?made w)(page_path d n \<mapsto> File html)\<rparr>)"
  have first: "save_page d n html w = (Inr (page_path d n), ?w1)"
    using assms by (rule save_page_ok)
  have fs1: "fs ?w1 = (?made w)(page_path d n \<mapsto> File html)"
    by (simp add: emit_def)
  have dirs1: "\<forall>q \<in> set (tl (prefixes d)). fs ?w1 q = Some Dir"
    using page_path_not_prefix [of d n] by (auto simp: fs1)
  then have ready1: "can_make_dirs (fs ?w1) d"
    by (simp add: can_make_dirs_def)
  have file1: "fs ?w1 (page_path d n) \<noteq> Some Dir"
    by (simp add: fs1)
  have same_dirs: "?made ?w1 = fs ?w1"
    using dirs1 by (auto simp: fun_eq_iff)
  have again: "\<exists>w2. save_page d n html' ?w1 = (Inr (page_path d n), w2) \<and>
                    fs w2 = (fs ?w1)(page_path d n \<mapsto> File html')" for html'
    using save_page_ok [OF ready1 file1, of html'] same_dirs
    by (simp add: emit_def)
  have "(fs ?w1)(page_path d n \<mapsto> File html) = fs ?w1"
    by (simp add: fs1)
  with again [of html]
  have same: "\<exists>w2. save_page d n html ?w1 = (Inr (page_path d n), w2) \<and> fs w2 = fs ?w1"
    by simp
  have other: "\<forall>q. q \<notin> set (tl (prefixes d)) \<and> q \<noteq> page_path d n \<longrightarrow> fs ?w1 q = fs w q"
    by (simp add: fs1)
  have "fs ?w1 (page_path d n) = Some (File html)"
    by (simp add: fs1)
  with first dirs1 other again same show ?thesis
    by blast
qed

theorem save_page_idempotent_witness:
  "\<exists>w1. save_page [''crawled_pages''] 7 ''<html>'' \<lparr>fs = Map.empty, trace = []\<rparr>
           = (Inr [''crawled_pages'', ''7.txt''], w1) \<and>
         fs w1 [''crawled_pages'', ''7.txt''] = Some (File ''<html>'') \<and>
         fs w1 [''crawled_pages''] = Some Dir \<and>
         (\<exists>w2. save_page [''crawled_pages''] 7 ''<p>'' w1 = (Inr [''crawled_pages'', ''7.txt''], w2) \<and>
               fs w2 [''crawled_pages'', ''7.txt''] = Some (File ''<p>''))"
proof -
  have p: "page_path [''crawled_pages''] 7 = [''crawled_pages'', ''7.txt'']"
    by code_simp
  have a: "can_make_dirs (fs \<lparr>fs = Map.empty, trace = []\<rparr>) [''crawled_pages'']"
    by (simp add: can_make_dirs_def)
  have b: "fs \<lparr>fs = Map.empty, trace = []\<rparr> (page_path [''crawled_pages''] 7) \<noteq> Some Dir"
    by simp
  from save_page_idempotent [OF a b, of "''<html>''"] obtain w1 where
    "save_page [''crawled_pages''] 7 ''<html>'' \<lparr>fs = Map.empty, trace = []\<rparr>
       = (Inr (page_path [''crawled_pages''] 7), w1)"
    and "fs w1 (page_path [''crawled_pages''] 7) = Some (File ''<html>'')"
    and "\<forall>q \<in> set (tl (prefixes [''crawled_pages''])). fs w1 q = Some Dir"
    and "\<forall>html'. \<exists>w2. save_page [''crawled_pages''] 7 html' w1 = (Inr (page_path [''crawled_pages''] 7), w2) \<and>
                          fs w2 = (fs w1)(page_path [''crawled_pages''] 7 \<mapsto> File html')"
    by blast
  then show ?thesis
    unfolding p by (intro exI [of _ w1]) (simp, metis fun_upd_same)
qed

section \<open>Numbers as file names\<close>









section \<open>The loop of the main program\<close>



text \<open>What a fetch may do: requests for its URL and sleeps, nothing else.\<close>

lemma fetch_loop_frame:
  "fetch_loop net url attempts w = (r, w') \<Longrightarrow>
     fs w' = fs w \<and>
     (\<exists>evs. trace w' = trace w @ evs \<and> writes_of evs = [] \<and> skipped_of evs = [])"
proof (induction attempts arbitrary: w)
  case Nil
  then show ?case by auto
next
  case (Cons a as)
  show ?case
  proof (cases "net (length (gets_of (trace w))) url")
    case Raised
    let ?w1 = "sleep (1 / 2 * of_int a) (emit (Get url) w)"
    from Cons.prems Raised have "fetch_loop net url as ?w1 = (r, w')"
      by (simp add: session_get_def)
    from Cons.IH [OF this] obtain evs where "fs w' = fs ?w1"
      and "trace w' = trace ?w1 @ evs" and "writes_of evs = []" and "skipped_of evs = []"
      by blast
    then have "fs w' = fs w"
      and "trace w' = trace w @ ([Get url, Sleep (1 / 2 * of_int a)] @ evs)"
      and "writes_of ([Get url, Sleep (1 / 2 * of_int a)] @ evs) = []"
      and "skipped_of ([Get url, Sleep (1 / 2 * of_int a)] @ evs) = []"
      by (simp_all add: sleep_def emit_def)
    then show ?thesis
      by blast
  next
    case (Responded resp)
    with Cons.prems have "w' = emit (Get url) w"
      by (auto simp: session_get_def split: if_splits)
    then have "fs w' = fs w" and "trace w' = trace w @ [Get url]"
      and "writes_of [Get url] = []" and "skipped_of [Get url] = []"
      by (simp_all add: emit_def)
    then show ?thesis
      by blast
  qed
qed


lemma fetch_html_frame:
  "fetch_html cfg net url w = (r, w') \<Longrightarrow>
     fs w' = fs w \<and>
     (\<exists>evs. trace w' = trace w @ evs \<and> writes_of evs = [] \<and> skipped_of evs = [])"
  unfolding fetch_html_def by (rule fetch_loop_frame)


text \<open>What \<open>save_page\<close> has done when it returns.\<close>

lemma write_text_Inr:
  "write_text p s w = (Inr u, w') \<Longrightarrow> w' = emit (WriteText p s) (w\<lparr>fs := (fs w)(p \<mapsto> File s)\<rparr>)"
  by (simp add: write_text_def split: if_splits)

lemma write_text_Inl: "write_text p s w = (Inl e, w') \<Longrightarrow> w' = w"
  by (simp add: write_text_def split: if_splits)

lemma mkdir_parents_exist_ok_trace:
  "mkdir_parents_exist_ok d w = (r, w') \<Longrightarrow> trace w' = trace w"
  by (cases "mkdir_chain (tl (prefixes d)) (fs w)")
    (auto simp: mkdir_parents_exist_ok_def)

lemma save_page_Inr:
  assumes "save_page d n html w = (Inr p, w')"
  shows "p = page_path d n \<and> trace w' = trace w @ [WriteText (page_path d n) html] \<and>
         fs w' (page_path d n) = Some (File html)"
proof -
  obtain r1 w1 where m: "mkdir_parents_exist_ok d w = (r1, w1)"
    by (cases "mkdir_parents_exist_ok d w")
  obtain r2 w2 where t: "write_text (page_path d n) html w1 = (r2, w2)"
    by (cases "write_text (page_path d n) html w1")
  from assms m t obtain u where r2: "r2 = Inr u" and p: "p = page_path d n" and w': "w' = w2"
    by (cases r1; cases r2) (simp_all add: save_page_def Let_def)
  from t r2 have "w2 = emit (WriteText (page_path d n) html)
      (w1\<lparr>fs := (fs w1)(page_path d n \<mapsto> File html)\<rparr>)"
    by (simp add: write_text_Inr)
  with mkdir_parents_exist_ok_trace [OF m] p w' show ?thesis
    by (simp add: emit_def)
qed

lemma save_page_Inl:
  assumes "save_page d n html w = (Inl e, w')"
  shows "trace w' = trace w"
proof -
  obtain r1 w1 where m: "mkdir_parents_exist_ok d w = (r1, w1)"
    by (cases "mkdir_parents_exist_ok d w")
  obtain r2 w2 where t: "write_text (page_path d n) html w1 = (r2, w2)"
    by (cases "write_text (page_path d n) html w1")
  from assms m t have "w' = w1 \<or> (w' = w2 \<and> (\<exists>e'. r2 = Inl e'))"
    by (cases r1; cases r2) (simp_all add: save_page_def Let_def)
  with t have "w' = w1"
    by (auto dest: write_text_Inl)
  with mkdir_parents_exist_ok_trace [OF m] show ?thesis
    by simp
qed




text \<open>Line 187: at the target the loop returns at once, whatever is left of the list.\<close>

lemma main_loop_stop:
  "MAX_PAGES cfg \<le> saved \<Longrightarrow> main_loop cfg net urls saved idx w = (Inr (saved, idx), w)"
  by (cases urls) simp_all

text \<open>
  Every run of the loop, also one that \<open>save_page\<close> ends with an exception, writes
  only page files numbered above \<open>saved\<close> and up to the target.
\<close>

lemma main_loop_writes:
  "main_loop cfg net urls saved idx w = (r, w') \<Longrightarrow>
     \<exists>evs. trace w' = trace w @ evs \<and>
       (\<forall>pb \<in> set (writes_of evs).
          \<exists>n. saved < n \<and> n \<le> MAX_PAGES cfg \<and> fst pb = page_path (OUTPUT_DIR cfg) n)"
proof (induction urls arbitrary: saved idx w)
  case Nil
  then have "trace w' = trace w @ []"
    by simp
  then show ?case
    by (intro exI [of _ "[]"]) simp
next
  case (Cons url urls)
  show ?case
  proof (cases "MAX_PAGES cfg \<le> saved")
    case True
    with Cons.prems have "trace w' = trace w @ []"
      by simp
    then show ?thesis
      by (intro exI [of _ "[]"]) simp
  next
    case False
    obtain ro w1 where f: "fetch_html cfg net url w = (ro, w1)"
      by (cases "fetch_html cfg net url w")
    from fetch_html_frame [OF f] obtain e1 where e1: "trace w1 = trace w @ e1"
      "writes_of e1 = []"
      by blast
    show ?thesis
    proof (cases ro)
      case None
      let ?w2 = "sleep (REQUEST_DELAY_SEC cfg) (print (''[SKIP] '' @ url) w1)"
      from Cons.prems False f None
      have "main_loop cfg net urls saved idx ?w2 = (r, w')"
        by simp
      from Cons.IH [OF this] obtain evs where evs: "trace w' = trace ?w2 @ evs"
        and b: "\<forall>pb \<in> set (writes_of evs).
          \<exists>n. saved < n \<and> n \<le> MAX_PAGES cfg \<and> fst pb = page_path (OUTPUT_DIR cfg) n"
        by blast
      let ?evs = "e1 @ [Print (''[SKIP] '' @ url), Sleep (REQUEST_DELAY_SEC cfg)] @ evs"
      have "trace w' = trace w @ ?evs"
        using evs e1(1) by (simp add: sleep_def print_def emit_def)
      moreover have "writes_of ?evs = writes_of evs"
        using e1(2) by (simp add: writes_of_append)
      ultimately show ?thesis
        using b by (intro exI [of _ ?evs]) simp
    next
      case (Some html)
      obtain r2 w2 where s: "save_page (OUTPUT_DIR cfg) (saved + 1) html w1 = (r2, w2)"
        by (cases "save_page (OUTPUT_DIR cfg) (saved + 1) html w1")
      show ?thesis
      proof (cases r2)
        case (Inl e)
        with Cons.prems False f Some s have "w' = w2"
          by simp
        with save_page_Inl [OF s [unfolded Inl]] e1 have "trace w' = trace w @ e1"
          by simp
        with e1(2) show ?thesis
          by (intro exI [of _ e1]) simp
      next
        case (Inr p)
        let ?w3 = "sleep (REQUEST_DELAY_SEC cfg)
                     (print (''[OK]   '' @ format_03d (saved + 1) @ '': '' @ url) w2)"
        let ?ok = "[WriteText (page_path (OUTPUT_DIR cfg) (saved + 1)) html,
                    Print (''[OK]   '' @ format_03d (saved + 1) @ '': '' @ url),
                    Sleep (REQUEST_DELAY_SEC cfg)]"
        from Cons.prems False f Some s Inr
        have "main_loop cfg net urls (saved + 1) (idx @ [(saved + 1, url)]) ?w3 = (r, w')"
          by simp
        from Cons.IH [OF this] obtain evs where evs: "trace w' = trace ?w3 @ evs"
          and b: "\<forall>pb \<in> set (writes_of evs).
            \<exists>n. saved + 1 < n \<and> n \<le> MAX_PAGES cfg \<and> fst pb = page_path (OUTPUT_DIR cfg) n"
          by blast
        from save_page_Inr [OF s [unfolded Inr]]
        have w2: "trace w2 = trace w1 @ [WriteText (page_path (OUTPUT_DIR cfg) (saved + 1)) html]"
          by simp
        let ?evs = "e1 @ ?ok @ evs"
        have tr: "trace w' = trace w @ ?evs"
          using evs e1(1) w2 by (simp add: sleep_def print_def emit_def)
        have wr: "writes_of ?evs = (page_path (OUTPUT_DIR cfg) (saved + 1), html) # writes_of evs"
          using e1(2) by (simp add: writes_of_append)
        have "\<forall>pb \<in> set (writes_of ?evs).
            \<exists>n. saved < n \<and> n \<le> MAX_PAGES cfg \<and> fst pb = page_path (OUTPUT_DIR cfg) n"
        proof
          fix pb assume "pb \<in> set (writes_of ?evs)"
          then consider "pb = (page_path (OUTPUT_DIR cfg) (saved + 1), html)"
            | "pb \<in> set (writes_of evs)"
            using wr by auto
          then show "\<exists>n. saved < n \<and> n \<le> MAX_PAGES cfg \<and> fst pb = page_path (OUTPUT_DIR cfg) n"
          proof cases
            case 1
            with False show ?thesis
              by (intro exI [of _ "saved + 1"]) simp
          next
            case 2
            with b obtain n where "saved + 1 < n" "n \<le> MAX_PAGES cfg"
              "fst pb = page_path (OUTPUT_DIR cfg) n"
              by blast
            then show ?thesis
              by (intro exI [of _ n]) simp
          qed
        qed
        with tr show ?thesis
          by blast
      qed
    qed
  qed
qed

lemma main_loop_saved_le:
  "main_loop cfg net urls saved idx w = (Inr (saved', idx'), w') \<Longrightarrow>
     saved \<le> saved' \<and> saved' \<le> max saved (MAX_PAGES cfg) \<and>
     int (length idx') = int (length idx) + (saved' - saved)"
proof (induction urls arbitrary: saved idx w)
  case Nil
  then show ?case by simp
next
  case (Cons url urls)
  show ?case
  proof (cases "MAX_PAGES cfg \<le> saved")
    case True
    with Cons.prems show ?thesis by simp
  next
    case False
    obtain ro w1 where f: "fetch_html cfg net url w = (ro, w1)"
      by (cases "fetch_html cfg net url w")
    show ?thesis
    proof (cases ro)
      case None
      with Cons.prems False f
      have "main_loop cfg net urls saved idx
              (sleep (REQUEST_DELAY_SEC cfg) (print (''[SKIP] '' @ url) w1))
            = (Inr (saved', idx'), w')"
        by simp
      then show ?thesis
        by (rule Cons.IH)
    next
      case (Some html)
      obtain r2 w2 where s: "save_page (OUTPUT_DIR cfg) (saved + 1) html w1 = (r2, w2)"
        by (cases "save_page (OUTPUT_DIR cfg) (saved + 1) html w1")
      from Cons.prems False f Some s obtain p where "r2 = Inr p"
        and "main_loop cfg net urls (saved + 1) (idx @ [(saved + 1, url)])
               (sleep (REQUEST_DELAY_SEC cfg)
                  (print (''[OK]   '' @ format_03d (saved + 1) @ '': '' @ url) w2))
             = (Inr (saved', idx'), w')"
        by (cases r2) simp_all
      from Cons.IH [OF this(2)] False show ?thesis
        by auto
    qed
  qed
qed

text \<open>
  Claim C9. For a target that is not negative: once \<open>saved\<close> has reached the target,
  the loop returns at once, with no further request and nothing else done; a run of the
  loop from \<open>saved = 0\<close> writes only page files numbered from 1 to the target, and
  when it returns, \<open>saved\<close> and the number of index entries are equal and do not
  exceed the target.
\<close>

theorem main_loop_never_exceeds_target:
  assumes "0 \<le> MAX_PAGES cfg"
  shows "(MAX_PAGES cfg \<le> saved \<longrightarrow>
            main_loop cfg net urls saved idx w = (Inr (saved, idx), w)) \<and>
         (\<forall>r w'. main_loop cfg net urls 0 [] w = (r, w') \<longrightarrow>
            (\<exists>evs. trace w' = trace w @ evs \<and>
               (\<forall>pb \<in> set (writes_of evs).
                  \<exists>n. 1 \<le> n \<and> n \<le> MAX_PAGES cfg \<and> fst pb = page_path (OUTPUT_DIR cfg) n)) \<and>
            (\<forall>saved' idx'. r = Inr (saved', idx') \<longrightarrow>
               saved' \<le> MAX_PAGES cfg \<and> int (length idx') = saved' \<and>
               int (length idx') \<le> MAX_PAGES cfg))"
proof (intro conjI allI impI)
  assume "MAX_PAGES cfg \<le> saved"
  then show "main_loop cfg net urls saved idx w = (Inr (saved, idx), w)"
    by (rule main_loop_stop)
next
  fix r w' assume run: "main_loop cfg net urls 0 [] w = (r, w')"
  from main_loop_writes [OF run] obtain evs where "trace w' = trace w @ evs"
    and "\<forall>pb \<in> set (writes_of evs).
          \<exists>n. 0 < n \<and> n \<le> MAX_PAGES cfg \<and> fst pb = page_path (OUTPUT_DIR cfg) n"
    by blast
  moreover have "0 < n \<longleftrightarrow> 1 \<le> n" for n :: int
    by auto
  ultimately show "\<exists>evs. trace w' = trace w @ evs \<and>
               (\<forall>pb \<in> set (writes_of evs).
                  \<exists>n. 1 \<le> n \<and> n \<le> MAX_PAGES cfg \<and> fst pb = page_path (OUTPUT_DIR cfg) n)"
    by (intro exI [of _ evs]) simp
  fix saved' idx' assume "r = Inr (saved', idx')"
  with run have "main_loop cfg net urls 0 [] w = (Inr (saved', idx'), w')"
    by simp
  from main_loop_saved_le [OF this] assms
  show "saved' \<le> MAX_PAGES cfg" and "int (length idx') = saved'"
    and "int (length idx') \<le> MAX_PAGES cfg"
    by simp_all
qed

theorem main_loop_never_exceeds_target_witness:
  "main_loop one_page_config html_network [''a'', ''b''] 1 [(1, ''a'')] empty_world
     = (Inr (1, [(1, ''a'')]), empty_world) \<and>
   (\<exists>w'. main_loop one_page_config html_network [''a'', ''b''] 0 [] empty_world
           = (Inr (1, [(1, ''a'')]), w') \<and>
         writes_of (trace w') = [([''crawled_pages'', ''1.txt''], ''<p>'')] \<and>
         gets_of (trace w') = [''a'']) \<and>
   (1 :: int) \<le> MAX_PAGES one_page_config"
proof -
  let ?run = "main_loop one_page_config html_network [''a'', ''b''] 0 [] empty_world"
  have target: "0 \<le> MAX_PAGES one_page_config" and one: "MAX_PAGES one_page_config \<le> 1"
    by (simp_all add: one_page_config_def)
  have "fst ?run = Inr (1, [(1, ''a'')])"
    by code_simp
  then have run: "?run = (Inr (1, [(1, ''a'')]), snd ?run)"
    by (metis prod.collapse)
  have wr: "writes_of (trace (snd ?run)) = [([''crawled_pages'', ''1.txt''], ''<p>'')]"
    by code_simp
  have gt: "gets_of (trace (snd ?run)) = [''a'']"
    by code_simp
  from main_loop_never_exceeds_target [OF target, of 1 html_network "[''a'', ''b'']"
      "[(1, ''a'')]" empty_world] one run
  have "main_loop one_page_config html_network [''a'', ''b''] 1 [(1, ''a'')] empty_world
          = (Inr (1, [(1, ''a'')]), empty_world)"
    and "(1 :: int) \<le> MAX_PAGES one_page_config"
    by auto
  with run wr gt show ?thesis
    by blast
qed

section \<open>The run as a whole\<close>

text \<open>On a ready file system \<open>save_page\<close> succeeds and leaves the file system ready.\<close>

lemma ready_save_page:
  assumes "ready cfg (fs w)"
  shows "\<exists>w2. save_page (OUTPUT_DIR cfg) n html w = (Inr (page_path (OUTPUT_DIR cfg) n), w2) \<and>
           ready cfg (fs w2)"
proof -
  let ?d = "OUTPUT_DIR cfg"
  let ?f = "(\<lambda>q. if q \<in> set (tl (prefixes ?d)) then Some Dir else fs w q)
              (page_path ?d n \<mapsto> File html)"
  let ?w2 = "emit (WriteText (page_path ?d n) html) (w\<lparr>fs := ?f\<rparr>)"
  from assms have dirs: "can_make_dirs (fs w) ?d"
    and pages: "\<And>m. fs w (page_path ?d m) \<noteq> Some Dir"
    and idx: "writable (fs w) (INDEX_PATH cfg)"
    and apart: "\<not> prefix (INDEX_PATH cfg) ?d"
    by (simp_all add: ready_def)
  have saved: "save_page ?d n html w = (Inr (page_path ?d n), ?w2)"
    using dirs pages by (rule save_page_ok)
  have f: "fs ?w2 = ?f"
    by (simp add: emit_def)
  have a: "can_make_dirs ?f ?d"
    using page_path_not_prefix [of ?d n] by (auto simp: can_make_dirs_def)
  have b: "?f (page_path ?d m) \<noteq> Some Dir" for m
    using pages [of m] page_path_not_prefix [of ?d m] by auto
  have not_made: "INDEX_PATH cfg \<notin> set (tl (prefixes ?d))"
    using apart by (simp add: in_tl_prefixes)
  have c1: "?f (INDEX_PATH cfg) \<noteq> Some Dir"
    using idx not_made by (auto simp: writable_def)
  have c2: "butlast (INDEX_PATH cfg) = [] \<or> ?f (butlast (INDEX_PATH cfg)) = Some Dir"
  proof (cases "butlast (INDEX_PATH cfg) = []")
    case True
    then show ?thesis by simp
  next
    case False
    with idx have parent: "fs w (butlast (INDEX_PATH cfg)) = Some Dir"
      by (simp add: writable_def)
    with pages [of n] have "butlast (INDEX_PATH cfg) \<noteq> page_path ?d n"
      by auto
    with parent show ?thesis
      by simp
  qed
  have "writable ?f (INDEX_PATH cfg)"
    using idx c1 c2 unfolding writable_def by blast
  with a b apart have "ready cfg ?f"
    unfolding ready_def by blast
  with saved f show ?thesis
    by auto
qed

lemma main_loop_ready:
  "ready cfg (fs w) \<Longrightarrow>
     \<exists>saved' idx' w'. main_loop cfg net urls saved idx w = (Inr (saved', idx'), w') \<and>
       ready cfg (fs w')"
proof (induction urls arbitrary: saved idx w)
  case Nil
  then show ?case by simp
next
  case (Cons url urls)
  show ?case
  proof (cases "MAX_PAGES cfg \<le> saved")
    case True
    with Cons.prems show ?thesis by simp
  next
    case False
    obtain ro w1 where f: "fetch_html cfg net url w = (ro, w1)"
      by (cases "fetch_html cfg net url w")
    with Cons.prems fetch_html_frame [OF f] have r1: "ready cfg (fs w1)"
      by simp
    show ?thesis
    proof (cases ro)
      case None
      let ?w2 = "sleep (REQUEST_DELAY_SEC cfg) (print (''[SKIP] '' @ url) w1)"
      from r1 have "ready cfg (fs ?w2)"
        by (simp add: sleep_def print_def emit_def)
      from Cons.IH [OF this, of saved idx] False f None show ?thesis
        by simp
    next
      case (Some html)
      from ready_save_page [OF r1, of "saved + 1" html] obtain w2 where
        s: "save_page (OUTPUT_DIR cfg) (saved + 1) html w1
              = (Inr (page_path (OUTPUT_DIR cfg) (saved + 1)), w2)"
        and r2: "ready cfg (fs w2)"
        by blast
      let ?w3 = "sleep (REQUEST_DELAY_SEC cfg)
                   (print (''[OK]   '' @ format_03d (saved + 1) @ '': '' @ url) w2)"
      from r2 have "ready cfg (fs ?w3)"
        by (simp add: sleep_def print_def emit_def)
      from Cons.IH [OF this, of "saved + 1" "idx @ [(saved + 1, url)]"] False f Some s
      show ?thesis
        by simp
    qed
  qed
qed

lemma crawl_ready:
  assumes "ready cfg (fs w)"
  shows "\<exists>saved idx w'. crawl cfg net urls w = (Inr (saved, idx), w')"
proof -
  from main_loop_ready [OF assms, of net urls 0 "[]"] obtain saved idx w1 where
    l: "main_loop cfg net urls 0 [] w = (Inr (saved, idx), w1)" and "ready cfg (fs w1)"
    by blast
  then have "writable (fs w1) (INDEX_PATH cfg)"
    by (simp add: ready_def)
  then have "\<exists>w2. write_index (INDEX_PATH cfg) idx w1 = (Inr (), w2)"
    by (simp add: write_index_def write_text_writable)
  with l show ?thesis
    by (auto simp: crawl_def)
qed











section \<open>How the process ends\<close>

text \<open>The list \<open>main\<close> works on has no duplicates.\<close>

lemma load_urls_distinct: "load_urls json_loads file_path w = Inr urls \<Longrightarrow> distinct urls"
proof -
  have "distinct (normalize_urls xs)" for xs
    using normalize_loop_inv [of xs "[]"]
    by (simp add: normalize_urls_def distinct_first_occurrences)
  moreover assume "load_urls json_loads file_path w = Inr urls"
  then have "\<exists>xs. urls = normalize_urls xs"
    by (auto simp: load_urls_def Let_def split: sum.splits option.splits json.splits)
  ultimately show ?thesis
    by auto
qed

lemma crawl_flushed:
  assumes "crawl cfg net urls w = (Inr (saved, idx), w')"
  shows "int (length idx) = saved \<and> fs w' (INDEX_PATH cfg) = Some (File (index_text idx))"
proof -
  obtain r1 w1 where l: "main_loop cfg net urls 0 [] w = (r1, w1)"
    by (cases "main_loop cfg net urls 0 [] w")
  obtain r2 w2 where x: "write_index (INDEX_PATH cfg) idx w1 = (r2, w2)"
    by (cases "write_index (INDEX_PATH cfg) idx w1")
  from assms l have r1: "r1 = Inr (saved, idx)"
    by (cases r1) (auto simp: crawl_def split: prod.splits sum.splits)
  with assms l x obtain u where r2: "r2 = Inr u" and w': "w' = w2"
    by (cases r2) (simp_all add: crawl_def)
  from x r2 have "w2 = emit (WriteText (INDEX_PATH cfg) (index_text idx))
      (w1\<lparr>fs := (fs w1)(INDEX_PATH cfg \<mapsto> File (index_text idx))\<rparr>)"
    by (simp add: write_index_def write_text_Inr)
  with w' have "fs w' (INDEX_PATH cfg) = Some (File (index_text idx))"
    by (simp add: emit_def)
  moreover from main_loop_saved_le [OF l [unfolded r1]] have "int (length idx) = saved"
    by simp
  ultimately show ?thesis
    by simp
qed

text \<open>
  Claim C2. When the URL list has been loaded and the file system is ready: with an
  empty list \<open>main\<close> ends at once by \<open>SystemExit\<close> with a message, status not zero,
  nothing done; otherwise the loop runs and the index is flushed, and then, with fewer
  pages saved than the target, \<open>main\<close> ends by \<open>SystemExit\<close> with a message that
  contains the number saved, status not zero, the flushed index on disk; with the
  target reached, it prints the summary with the number saved, as the last thing the
  run does, and ends with status 0.
\<close>

theorem main_exit:
  assumes "load_urls json_loads (URLS_FILE cfg) w = Inr urls" and "ready cfg (fs w)"
  shows "(urls = [] \<longrightarrow>
            main cfg json_loads net w = (SystemExit msg_list_empty, w) \<and>
            msg_list_empty \<noteq> [] \<and>
            exit_status (fst (main cfg json_loads net w)) \<noteq> 0) \<and>
         (urls \<noteq> [] \<longrightarrow>
            (\<exists>saved idx w1.
               crawl cfg net urls w = (Inr (saved, idx), w1) \<and>
               int (length idx) = saved \<and>
               fs w1 (INDEX_PATH cfg) = Some (File (index_text idx)) \<and>
               (saved < MAX_PAGES cfg \<longrightarrow>
                  main cfg json_loads net w = (SystemExit (msg_too_few saved), w1) \<and>
                  sublist (str_int saved) (msg_too_few saved) \<and>
                  exit_status (fst (main cfg json_loads net w)) \<noteq> 0) \<and>
               (MAX_PAGES cfg \<le> saved \<longrightarrow>
                  main cfg json_loads net w = (Exit_ok, print (msg_done saved) w1) \<and>
                  trace (snd (main cfg json_loads net w)) = trace w1 @ [Print (msg_done saved)] \<and>
                  sublist (str_int saved) (msg_done saved) \<and>
                  exit_status (fst (main cfg json_loads net w)) = 0)))"
proof (intro conjI impI)
  assume "urls = []"
  with assms(1) show "main cfg json_loads net w = (SystemExit msg_list_empty, w)"
    and "exit_status (fst (main cfg json_loads net w)) \<noteq> 0"
    by (simp_all add: main_def)
  show "msg_list_empty \<noteq> []"
    by (simp add: msg_list_empty_def)
next
  assume some: "urls \<noteq> []"
  from crawl_ready [OF assms(2), of net urls] obtain saved idx w1 where
    c: "crawl cfg net urls w = (Inr (saved, idx), w1)"
    by blast
  have m: "main cfg json_loads net w =
      (if saved < MAX_PAGES cfg then (SystemExit (msg_too_few saved), w1)
       else (Exit_ok, print (msg_done saved) w1))"
    using assms(1) some c by (simp add: main_def)
  have s1: "sublist (str_int saved) (msg_too_few saved)"
    unfolding msg_too_few_def sublist_def by blast
  have s2: "sublist (str_int saved) (msg_done saved)"
    unfolding msg_done_def sublist_def by blast
  have pr: "trace (print (msg_done saved) w1) = trace w1 @ [Print (msg_done saved)]"
    by (simp add: print_def emit_def)
  from crawl_flushed [OF c] c m s1 s2 pr
  show "\<exists>saved idx w1.
               crawl cfg net urls w = (Inr (saved, idx), w1) \<and>
               int (length idx) = saved \<and>
               fs w1 (INDEX_PATH cfg) = Some (File (index_text idx)) \<and>
               (saved < MAX_PAGES cfg \<longrightarrow>
                  main cfg json_loads net w = (SystemExit (msg_too_few saved), w1) \<and>
                  sublist (str_int saved) (msg_too_few saved) \<and>
                  exit_status (fst (main cfg json_loads net w)) \<noteq> 0) \<and>
               (MAX_PAGES cfg \<le> saved \<longrightarrow>
                  main cfg json_loads net w = (Exit_ok, print (msg_done saved) w1) \<and>
                  trace (snd (main cfg json_loads net w)) = trace w1 @ [Print (msg_done saved)] \<and>
                  sublist (str_int saved) (msg_done saved) \<and>
                  exit_status (fst (main cfg json_loads net w)) = 0)"
    by (intro exI [of _ saved] exI [of _ idx] exI [of _ w1]) simp
qed

lemma ready_input_world: "ready cfg0 (fs input_world)"
  if "OUTPUT_DIR cfg0 = [''crawled_pages'']" and "INDEX_PATH cfg0 = [''index.txt'']" for cfg0
  using that by (simp add: ready_def input_world_def can_make_dirs_def writable_def page_path_def)

theorem main_exit_witness:
  "fst (main one_page_config urls_b_a mixed_network input_world) = Exit_ok \<and>
   exit_status (fst (main one_page_config urls_b_a mixed_network input_world)) = 0 \<and>
   trace (snd (main one_page_config urls_b_a mixed_network input_world)) =
     [Get ''b'', Print ''[SKIP] b'', Sleep (1 / 5), Get ''a'',
      WriteText [''crawled_pages'', ''1.txt''] ''<p>'', Print ''[OK]   001: a'', Sleep (1 / 5),
      WriteText [''index.txt''] [CHR ''1'', CHR 0x09, CHR ''a'', CHR 0x0A],
      Print (msg_done 1)] \<and>
   fst (main default_config urls_b_a mixed_network input_world) = SystemExit (msg_too_few 1) \<and>
   exit_status (fst (main default_config urls_b_a mixed_network input_world)) \<noteq> 0 \<and>
   fs (snd (main default_config urls_b_a mixed_network input_world)) [''index.txt'']
     = Some (File [CHR ''1'', CHR 0x09, CHR ''a'', CHR 0x0A])"
proof -
  let ?crawl1 = "crawl one_page_config mixed_network [''b'', ''a''] input_world"
  have l1: "load_urls urls_b_a (URLS_FILE one_page_config) input_world = Inr [''b'', ''a'']"
    and l2: "load_urls urls_b_a (URLS_FILE default_config) input_world = Inr [''b'', ''a'']"
    by code_simp+
  have r1: "ready one_page_config (fs input_world)"
    by (rule ready_input_world) (simp_all add: one_page_config_def default_config_def)
  have r2: "ready default_config (fs input_world)"
    by (rule ready_input_world) (simp_all add: default_config_def)
  have c1: "fst ?crawl1 = Inr (1, [(1, ''a'')])"
    and c2: "fst (crawl default_config mixed_network [''b'', ''a''] input_world)
      = Inr (1, [(1, ''a'')])"
    by code_simp+
  have t1: "MAX_PAGES one_page_config \<le> 1" and t2: "1 < MAX_PAGES default_config"
    and ip: "INDEX_PATH default_config = [''index.txt'']"
    and it: "index_text [(1, ''a'')] = [CHR ''1'', CHR 0x09, CHR ''a'', CHR 0x0A]"
    by code_simp+
  have tr1: "trace (snd ?crawl1) =
     [Get ''b'', Print ''[SKIP] b'', Sleep (1 / 5), Get ''a'',
      WriteText [''crawled_pages'', ''1.txt''] ''<p>'', Print ''[OK]   001: a'', Sleep (1 / 5),
      WriteText [''index.txt''] [CHR ''1'', CHR 0x09, CHR ''a'', CHR 0x0A]]"
    by code_simp
  from main_exit [OF l1 r1, of mixed_network] c1 t1
  have a: "fst (main one_page_config urls_b_a mixed_network input_world) = Exit_ok"
    and b: "exit_status (fst (main one_page_config urls_b_a mixed_network input_world)) = 0"
    and p: "trace (snd (main one_page_config urls_b_a mixed_network input_world)) =
        trace (snd ?crawl1) @ [Print (msg_done 1)]"
    by auto
  from main_exit [OF l2 r2, of mixed_network] c2 t2
  have c: "fst (main default_config urls_b_a mixed_network input_world) = SystemExit (msg_too_few 1)"
    and d: "exit_status (fst (main default_config urls_b_a mixed_network input_world)) \<noteq> 0"
    and e: "fs (snd (main default_config urls_b_a mixed_network input_world)) [''index.txt'']
     = Some (File [CHR ''1'', CHR 0x09, CHR ''a'', CHR 0x0A])"
    by (auto simp: ip it)
  from a b c d e p [unfolded tr1] show ?thesis
    by simp
qed

end
